theory Spec2Isabelle
  imports Complex_Main "HOL-Library.Word" "HOL-Library.Monad_Syntax"
begin

section \<open>Double-precision values\<close>

text \<open>
  The C code computes with \<open>double\<close>. A \<open>dbl\<close> is either a finite value, a real number,
  or one of the IEEE-754 special values. The special values matter: \<open>find_states\<close>
  divides by \<open>h_lo - h_hi\<close>, which is zero whenever both state counts agree. The sign of
  a zero is not recorded; a zero divisor is taken as \<open>+0\<close>, which is what \<open>x - x\<close> gives in
  the default rounding mode.

  The operations \<open>dadd\<close>, \<open>dsub\<close>, \<open>dmul\<close> and \<open>ddiv\<close> give the exact result; the
  probabilities and counts of the PMFs are computed with them. The bit allocator, the
  selector \<open>choose_quantizer\<close> and the line of the ratios of the codebook file depend on
  the last bit of a result: there every operation is followed by the rounding \<open>rnd\<close> to
  the nearest binary64 value (\<open>fsub\<close>, \<open>fmul\<close>, \<open>fdiv\<close>, \<open>fpow2\<close>, \<open>flog2\<close>).
\<close>

datatype dbl = Num real | PInf | NInf | NaN

fun dneg :: "dbl \<Rightarrow> dbl" where
  "dneg (Num x) = Num (- x)"
| "dneg PInf = NInf"
| "dneg NInf = PInf"
| "dneg NaN = NaN"

fun dadd :: "dbl \<Rightarrow> dbl \<Rightarrow> dbl" where
  "dadd (Num x) (Num y) = Num (x + y)"
| "dadd NaN _ = NaN"
| "dadd _ NaN = NaN"
| "dadd PInf NInf = NaN"
| "dadd NInf PInf = NaN"
| "dadd PInf _ = PInf"
| "dadd _ PInf = PInf"
| "dadd NInf _ = NInf"
| "dadd _ NInf = NInf"

definition dsub :: "dbl \<Rightarrow> dbl \<Rightarrow> dbl" where
  "dsub x y = dadd x (dneg y)"

fun dmul :: "dbl \<Rightarrow> dbl \<Rightarrow> dbl" where
  "dmul (Num x) (Num y) = Num (x * y)"
| "dmul NaN _ = NaN"
| "dmul _ NaN = NaN"
| "dmul (Num x) y = (if x = 0 then NaN else if 0 < x then y else dneg y)"
| "dmul x (Num y) = (if y = 0 then NaN else if 0 < y then x else dneg x)"
| "dmul PInf PInf = PInf"
| "dmul PInf NInf = NInf"
| "dmul NInf PInf = NInf"
| "dmul NInf NInf = PInf"

fun ddiv :: "dbl \<Rightarrow> dbl \<Rightarrow> dbl" where
  "ddiv NaN _ = NaN"
| "ddiv _ NaN = NaN"
| "ddiv (Num x) (Num y) =
     (if y \<noteq> 0 then Num (x / y)
      else if x = 0 then NaN
      else if 0 < x then PInf else NInf)"
| "ddiv (Num x) y = Num 0"
| "ddiv x (Num y) = (if 0 \<le> y then x else dneg x)"
| "ddiv x y = NaN"

text \<open>The comparison \<open>>=\<close> of C: false as soon as one side is not a number.\<close>

fun dge :: "dbl \<Rightarrow> dbl \<Rightarrow> bool" where
  "dge NaN _ = False"
| "dge _ NaN = False"
| "dge (Num x) (Num y) = (y \<le> x)"
| "dge PInf _ = True"
| "dge _ NInf = True"
| "dge _ _ = False"

text \<open>The comparison \<open><\<close> of C, in which the specification words the choice of a quantizer.\<close>

fun dlt :: "dbl \<Rightarrow> dbl \<Rightarrow> bool" where
  "dlt NaN _ = False"
| "dlt _ NaN = False"
| "dlt (Num x) (Num y) = (x < y)"
| "dlt _ NInf = False"
| "dlt PInf _ = False"
| "dlt _ _ = True"

text \<open>The exact values of \<open>pow(2.0, x)\<close>, \<open>ceil\<close> and \<open>log2\<close>.\<close>

fun dpow2 :: "dbl \<Rightarrow> dbl" where
  "dpow2 (Num x) = Num (2 powr x)"
| "dpow2 PInf = PInf"
| "dpow2 NInf = Num 0"
| "dpow2 NaN = NaN"

fun dceil :: "dbl \<Rightarrow> dbl" where
  "dceil (Num x) = Num (of_int \<lceil>x\<rceil>)"
| "dceil x = x"

fun dlog2 :: "dbl \<Rightarrow> dbl" where
  "dlog2 (Num x) = (if 0 < x then Num (log 2 x) else if x = 0 then NInf else NaN)"
| "dlog2 PInf = PInf"
| "dlog2 NInf = NaN"
| "dlog2 NaN = NaN"

text \<open>
  The cast \<open>(uint32_t) x\<close> truncates towards zero. It is defined only when the truncated
  value fits; otherwise the behaviour of the C program is undefined (\<open>None\<close>).
\<close>

fun to_uint32 :: "dbl \<Rightarrow> nat option" where
  "to_uint32 (Num x) = (if - 1 < x \<and> x < 2 ^ 32 then Some (nat \<lfloor>x\<rfloor>) else None)"
| "to_uint32 _ = None"

text \<open>The cast \<open>(double) n\<close> of an unsigned integer.\<close>

definition of_uint :: "nat \<Rightarrow> dbl" where
  "of_uint n = Num (real n)"

text \<open>
  Rounding to binary64, to nearest with ties to even. \<open>rne\<close> rounds a real number to an
  integer. \<open>ulp x\<close> is the distance of neighbouring doubles at \<open>x\<close>: for a number of
  binary exponent \<open>e\<close> it is 2 to the power \<open>e - 52\<close>, and for the subnormal numbers 2 to
  the power \<open>-1074\<close>. \<open>rd\<close> rounds the mantissa \<open>x / ulp x\<close> and overflows to an infinity.
\<close>

definition rne :: "real \<Rightarrow> int" where
  "rne m = (let f = \<lfloor>m\<rfloor>; d = m - of_int f in
     if d < 1/2 then f else if 1/2 < d then f + 1 else if even f then f else f + 1)"

definition ulp :: "real \<Rightarrow> real" where
  "ulp x = 2 powr of_int (max \<lfloor>log 2 \<bar>x\<bar>\<rfloor> (- 1022) - 52)"

definition rd :: "real \<Rightarrow> dbl" where
  "rd x = (if x = 0 then Num 0
           else let y = of_int (rne (x / ulp x)) * ulp x
                in if 2 ^ 1024 \<le> \<bar>y\<bar> then (if 0 < x then PInf else NInf) else Num y)"

fun rnd :: "dbl \<Rightarrow> dbl" where
  "rnd (Num x) = rd x"
| "rnd PInf = PInf"
| "rnd NInf = NInf"
| "rnd NaN = NaN"

text \<open>
  The operations of the C program on doubles: the exact result, rounded. \<open>pow\<close> and
  \<open>log2\<close> belong to the C library, which is not part of the repository; they are taken
  to return the double nearest to the exact value.
\<close>

definition fsub :: "dbl \<Rightarrow> dbl \<Rightarrow> dbl" where
  "fsub x y = rnd (dsub x y)"

definition fmul :: "dbl \<Rightarrow> dbl \<Rightarrow> dbl" where
  "fmul x y = rnd (dmul x y)"

definition fdiv :: "dbl \<Rightarrow> dbl \<Rightarrow> dbl" where
  "fdiv x y = rnd (ddiv x y)"

definition fpow2 :: "dbl \<Rightarrow> dbl" where
  "fpow2 x = rnd (dpow2 x)"

definition flog2 :: "dbl \<Rightarrow> dbl" where
  "flog2 x = rnd (dlog2 x)"

section \<open>The bit allocator\<close>

text \<open>
  \<open>find_states(entropy, &high, &low, &ratio)\<close>: the three outputs are returned as a
  triple, in the order of the C parameters.
\<close>

definition find_states :: "dbl \<Rightarrow> (nat \<times> nat \<times> dbl) option" where
  "find_states entropy = do {
     let h_lo = fpow2 entropy;
     low \<leftarrow> to_uint32 h_lo;
     high \<leftarrow> to_uint32 (dceil h_lo);
     let h_lo = flog2 (of_uint low);
     let h_hi = flog2 (of_uint high);
     Some (high, low, fdiv (fsub entropy h_hi) (fsub h_lo h_hi))
   }"


section \<open>Checked array access and loops\<close>

text \<open>
  C arrays are lists. Reading or writing outside an array, or through a null pointer, is
  undefined behaviour in C; in the model such a step has no result (\<open>None\<close>), and
  neither has whatever follows it.
\<close>

definition nth_chk :: "'a list \<Rightarrow> nat \<Rightarrow> 'a option" where
  "nth_chk xs i = (if i < length xs then Some (xs ! i) else None)"

definition upd_chk :: "'a list \<Rightarrow> nat \<Rightarrow> 'a \<Rightarrow> 'a list option" where
  "upd_chk xs i v = (if i < length xs then Some (xs[i := v]) else None)"

text \<open>Dereferencing a pointer that may be null.\<close>

definition deref :: "'a option \<Rightarrow> 'a option" where
  [simp]: "deref p = p"

text \<open>
  An index \<open>a - b\<close> computed in \<open>uint32_t\<close> wraps around when \<open>a < b\<close>, to a value
  beyond the end of every array of the program: an access through it is undefined.
\<close>

definition idx_sub :: "nat \<Rightarrow> nat \<Rightarrow> nat option" where
  "idx_sub a b = (if b \<le> a then Some (a - b) else None)"

text \<open>
  A counting loop \<open>for (i = a; i < b; ++i) body\<close> over a state is
  \<open>foldE body [a..<b] state\<close>: it stops at the first step without a result.
\<close>

fun foldE :: "('a \<Rightarrow> 's \<Rightarrow> 's option) \<Rightarrow> 'a list \<Rightarrow> 's \<Rightarrow> 's option" where
  "foldE f [] s = Some s"
| "foldE f (x # xs) s = (case f x s of None \<Rightarrow> None | Some s' \<Rightarrow> foldE f xs s')"

section \<open>Alphabets\<close>

text \<open>
  A \<open>symbol_t\<close> is a small unsigned integer. An \<open>alphabet_t\<close> is its array of symbols:
  \<open>A->size\<close> is the length and \<open>A->symbols[i]\<close> the \<open>i\<close>-th element.
\<close>

type_synonym symbol = nat
type_synonym alphabet = "symbol list"

text \<open>
  Modelled from the spec: \<open>alloc_alphabet\<close>, \<open>duplicate_alphabet\<close>, \<open>alphabet_union\<close> and
  \<open>get_symbol_index\<close>; the alphabet module is not among the sources. Section 4.1:
  \<open>trivial(n)\<close> yields \<open>{0,...,n-1}\<close>; the union preserves ascending symbol order;
  \<open>index_of\<close> returns the sentinel \<open>ALPHABET_SYMBOL_NOT_FOUND\<close> for a missing symbol,
  which is \<open>None\<close> here.
\<close>

definition alloc_alphabet :: "nat \<Rightarrow> alphabet" where
  "alloc_alphabet n = [0..<n]"

definition duplicate_alphabet :: "alphabet \<Rightarrow> alphabet" where
  "duplicate_alphabet A = A"

definition alphabet_union :: "alphabet \<Rightarrow> alphabet \<Rightarrow> alphabet" where
  "alphabet_union A B = sort (remdups (A @ B))"

fun get_symbol_index :: "alphabet \<Rightarrow> symbol \<Rightarrow> nat option" where
  "get_symbol_index [] s = None"
| "get_symbol_index (a # A) s =
     (if a = s then Some 0 else map_option Suc (get_symbol_index A s))"

section \<open>Quantizers and the conditional quantizer list\<close>

text \<open>
  \<open>struct quantizer_t\<close> is declared in a header that is not among the sources; the
  fields are the ones that \<open>codebook.c\<close> reads: \<open>alphabet\<close>, \<open>output_alphabet\<close>, the
  mapping \<open>q\<close> and \<open>ratio\<close>.
\<close>

record quantizer_t =
  qz_alphabet :: alphabet
  qz_output_alphabet :: alphabet
  qz_q :: "symbol list"
  qz_ratio :: dbl

text \<open>
  \<open>struct cond_quantizer_list_t\<close>. Every array is allocated with \<open>calloc\<close>, so a column
  that has not been initialised holds null pointers (\<open>None\<close>), and so does a slot of
  \<open>q[column]\<close> before a quantizer is stored. The state of the random number generator
  has the type \<open>'w\<close>: \<open>struct well_state_t\<close> and \<open>well_1024a\<close> are not among the
  sources, and the generator is a parameter wherever it is used.
\<close>

record 'w cond_quantizer_list_t =
  cq_columns :: nat
  cq_input_alphabets :: "alphabet option list"
  cq_q :: "quantizer_t option list option list"
  cq_ratio :: "dbl list option list"
  cq_well :: 'w

definition alloc_conditional_quantizer_list :: "'w \<Rightarrow> nat \<Rightarrow> 'w cond_quantizer_list_t" where
  "alloc_conditional_quantizer_list w columns =
     \<lparr>cq_columns = columns,
      cq_input_alphabets = replicate columns None,
      cq_q = replicate columns None,
      cq_ratio = replicate columns None,
      cq_well = w\<rparr>"

definition cond_quantizer_init_column ::
  "'w cond_quantizer_list_t \<Rightarrow> nat \<Rightarrow> alphabet \<Rightarrow> 'w cond_quantizer_list_t option" where
  "cond_quantizer_init_column list column input_union = do {
     as \<leftarrow> upd_chk (cq_input_alphabets list) column (Some (duplicate_alphabet input_union));
     qs \<leftarrow> upd_chk (cq_q list) column (Some (replicate (length input_union * 2) None));
     rs \<leftarrow> upd_chk (cq_ratio list) column (Some (replicate (length input_union) (Num 0)));
     Some (list\<lparr>cq_input_alphabets := as, cq_q := qs, cq_ratio := rs\<rparr>)
   }"

text \<open>The result of \<open>get_cond_quantizer_indexed\<close> is a pointer, null for an empty slot.\<close>

definition get_cond_quantizer_indexed ::
  "'w cond_quantizer_list_t \<Rightarrow> nat \<Rightarrow> nat \<Rightarrow> quantizer_t option option" where
  "get_cond_quantizer_indexed list column index = do {
     col \<leftarrow> nth_chk (cq_q list) column;
     qs \<leftarrow> deref col;
     nth_chk qs index
   }"

definition get_cond_quantizer ::
  "'w cond_quantizer_list_t \<Rightarrow> nat \<Rightarrow> symbol \<Rightarrow> quantizer_t option option" where
  "get_cond_quantizer list column prev = do {
     a \<leftarrow> nth_chk (cq_input_alphabets list) column;
     A \<leftarrow> deref a;
     (case get_symbol_index A prev of
        Some idx \<Rightarrow> get_cond_quantizer_indexed list column idx
      | None \<Rightarrow> Some None)
   }"

text \<open>
  \<open>store_cond_quantizers\<close> does not test the index: for a symbol that is not in the
  input alphabet it writes far outside the arrays.
\<close>

definition store_cond_quantizers ::
  "quantizer_t \<Rightarrow> quantizer_t \<Rightarrow> 'w cond_quantizer_list_t \<Rightarrow> nat \<Rightarrow> symbol
     \<Rightarrow> 'w cond_quantizer_list_t option" where
  "store_cond_quantizers lo hi list column prev = do {
     a \<leftarrow> nth_chk (cq_input_alphabets list) column;
     A \<leftarrow> deref a;
     idx \<leftarrow> get_symbol_index A prev;
     col \<leftarrow> nth_chk (cq_q list) column;
     qs \<leftarrow> deref col;
     qs \<leftarrow> upd_chk qs (2 * idx) (Some lo);
     qs \<leftarrow> upd_chk qs (2 * idx + 1) (Some hi);
     rcol \<leftarrow> nth_chk (cq_ratio list) column;
     rs \<leftarrow> deref rcol;
     rs \<leftarrow> upd_chk rs idx (qz_ratio lo);
     Some (list\<lparr>cq_q := (cq_q list)[column := Some qs],
                cq_ratio := (cq_ratio list)[column := Some rs]\<rparr>)
   }"

text \<open>
  \<open>choose_quantizer\<close> can end in two ways that are not a result: the assertion on the
  index fails, or the access is undefined.
\<close>

datatype error = AlphabetLookupMiss | OpenFailed | Undefined

definition UINT32_MAX :: nat where
  "UINT32_MAX = 2 ^ 32 - 1"

definition or_undefined :: "'a option \<Rightarrow> error + 'a" where
  "or_undefined x = (case x of None \<Rightarrow> Inl Undefined | Some v \<Rightarrow> Inr v)"

definition choose_quantizer ::
  "('w \<Rightarrow> 32 word \<times> 'w) \<Rightarrow> 'w cond_quantizer_list_t \<Rightarrow> nat \<Rightarrow> symbol
     \<Rightarrow> error + (quantizer_t option \<times> 'w cond_quantizer_list_t)" where
  "choose_quantizer well_1024a list column prev =
     (case Option.bind (nth_chk (cq_input_alphabets list) column) deref of
        None \<Rightarrow> Inl Undefined
      | Some A \<Rightarrow>
     (case get_symbol_index A prev of
        None \<Rightarrow> Inl AlphabetLookupMiss
      | Some idx \<Rightarrow>
     (let (u, w) = well_1024a (cq_well list);
          list' = list\<lparr>cq_well := w\<rparr>
      in or_undefined (do {
           rcol \<leftarrow> nth_chk (cq_ratio list') column;
           rs \<leftarrow> deref rcol;
           r \<leftarrow> nth_chk rs idx;
           col \<leftarrow> nth_chk (cq_q list') column;
           qs \<leftarrow> deref col;
           (if dge (fdiv (of_uint (unat u)) (of_uint UINT32_MAX)) r
            then do { hi \<leftarrow> nth_chk qs (2 * idx + 1); Some (hi, list') }
            else do { lo \<leftarrow> nth_chk qs (2 * idx); Some (lo, list') })
         }))))"


section \<open>Probability mass functions\<close>

text \<open>
  Modelled from the spec: \<open>struct pmf_t\<close>, \<open>alloc_pmf\<close>, \<open>alloc_pmf_list\<close>,
  \<open>pmf_increment\<close>, \<open>get_probability\<close>, \<open>combine_pmfs\<close> and \<open>renormalize_pmf\<close>; the
  PMF module is not among the sources, \<open>codebook.c\<close> only reads and writes the fields
  \<open>pmf\<close> and \<open>pmf_ready\<close>. Section 3 and 4.2: a PMF is a vector over its alphabet with a
  flag that tells raw counts (not ready) from probabilities (ready); \<open>increment\<close>
  requires a PMF that is not ready and bumps the count; the probability of a symbol in a
  PMF of raw counts is its share of the total, and a PMF without mass is read as it is
  stored; \<open>combine(P, Q, \<alpha>, \<beta>, OUT)\<close> sets \<open>OUT[s] = \<alpha>\<cdot>P[s] + \<beta>\<cdot>Q[s]\<close>, to be used
  without further normalisation; \<open>renormalize\<close> divides by the total mass and fails when
  the total is zero. A \<open>pmf_list_t\<close> is the list of its PMFs.
\<close>

record pmf_t =
  pmf_alphabet :: alphabet
  pmf_pmf :: "dbl list"
  pmf_ready :: bool

definition alloc_pmf :: "alphabet \<Rightarrow> pmf_t" where
  "alloc_pmf A = \<lparr>pmf_alphabet = A, pmf_pmf = replicate (length A) (Num 0), pmf_ready = False\<rparr>"

definition alloc_pmf_list :: "nat \<Rightarrow> alphabet \<Rightarrow> pmf_t list" where
  "alloc_pmf_list n A = replicate n (alloc_pmf A)"

definition dsum :: "dbl list \<Rightarrow> dbl" where
  "dsum vs = foldl dadd (Num 0) vs"

definition pmf_increment :: "pmf_t \<Rightarrow> nat \<Rightarrow> pmf_t option" where
  "pmf_increment P index =
     (if pmf_ready P then None
      else do {
        v \<leftarrow> nth_chk (pmf_pmf P) index;
        Some (P\<lparr>pmf_pmf := (pmf_pmf P)[index := dadd v (Num 1)]\<rparr>)
      })"

definition probability :: "pmf_t \<Rightarrow> nat \<Rightarrow> dbl" where
  "probability P idx =
     (if pmf_ready P \<or> dsum (pmf_pmf P) = Num 0 then pmf_pmf P ! idx
      else ddiv (pmf_pmf P ! idx) (dsum (pmf_pmf P)))"

definition get_probability :: "pmf_t \<Rightarrow> nat \<Rightarrow> dbl option" where
  "get_probability P idx = (if idx < length (pmf_pmf P) then Some (probability P idx) else None)"

definition combine_pmfs :: "pmf_t \<Rightarrow> pmf_t \<Rightarrow> dbl \<Rightarrow> dbl \<Rightarrow> pmf_t \<Rightarrow> pmf_t option" where
  "combine_pmfs a b weight_a weight_b result =
     (if length (pmf_pmf a) = length (pmf_pmf result) \<and> length (pmf_pmf b) = length (pmf_pmf result)
      then Some (result\<lparr>pmf_pmf :=
                   map (\<lambda>i. dadd (dmul weight_a (probability a i)) (dmul weight_b (probability b i)))
                     [0..<length (pmf_pmf result)],
                 pmf_ready := True\<rparr>)
      else None)"

definition renormalize_pmf :: "pmf_t \<Rightarrow> pmf_t option" where
  "renormalize_pmf P =
     (if dsum (pmf_pmf P) = Num 0 then None
      else Some (P\<lparr>pmf_pmf := map (\<lambda>v. ddiv v (dsum (pmf_pmf P))) (pmf_pmf P)\<rparr>))"

text \<open>\<open>pmfs[x]->pmf[idx] += v\<close> and \<open>pmfs[x]->pmf[idx] *= v\<close> on a list of PMFs.\<close>

definition pmf_list_add :: "pmf_t list \<Rightarrow> nat \<Rightarrow> nat \<Rightarrow> dbl \<Rightarrow> pmf_t list option" where
  "pmf_list_add l x idx v = do {
     p \<leftarrow> nth_chk l x;
     old \<leftarrow> nth_chk (pmf_pmf p) idx;
     Some (l[x := p\<lparr>pmf_pmf := (pmf_pmf p)[idx := dadd old v]\<rparr>])
   }"

definition pmf_list_mul :: "pmf_t list \<Rightarrow> nat \<Rightarrow> nat \<Rightarrow> dbl \<Rightarrow> pmf_t list option" where
  "pmf_list_mul l x idx v = do {
     p \<leftarrow> nth_chk l x;
     old \<leftarrow> nth_chk (pmf_pmf p) idx;
     Some (l[x := p\<lparr>pmf_pmf := (pmf_pmf p)[idx := dmul old v]\<rparr>])
   }"

section \<open>The conditional PMF list and the statistics of the training data\<close>

text \<open>
  \<open>struct cond_pmf_list_t\<close>: the PMFs are stored in one flat array, \<open>marginal_pmfs\<close> is a
  null pointer until \<open>calculate_statistics\<close> has run.
\<close>

record cond_pmf_list_t =
  cp_columns :: nat
  cp_alphabet :: alphabet
  cp_pmfs :: "pmf_t list"
  cp_marginal_pmfs :: "pmf_t list option"

text \<open>The count of PMFs is computed in \<open>uint32_t\<close>.\<close>

definition alloc_conditional_pmf_list :: "alphabet \<Rightarrow> nat \<Rightarrow> cond_pmf_list_t" where
  "alloc_conditional_pmf_list A columns =
     \<lparr>cp_columns = columns,
      cp_alphabet = A,
      cp_pmfs = replicate ((1 + length A * ((columns + 2 ^ 32 - 1) mod 2 ^ 32)) mod 2 ^ 32) (alloc_pmf A),
      cp_marginal_pmfs = None\<rparr>"

definition cond_pmf_index :: "cond_pmf_list_t \<Rightarrow> nat \<Rightarrow> symbol \<Rightarrow> nat" where
  "cond_pmf_index list column prev =
     (if column = 0 then 0 else 1 + (column - 1) * length (cp_alphabet list) + prev)"

definition get_cond_pmf :: "cond_pmf_list_t \<Rightarrow> nat \<Rightarrow> symbol \<Rightarrow> pmf_t option" where
  "get_cond_pmf list column prev = nth_chk (cp_pmfs list) (cond_pmf_index list column prev)"

text \<open>
  The training data: \<open>info->columns\<close> and the blocks of lines, each line with its array
  \<open>data\<close> of symbols. \<open>block_count\<close> and \<open>count\<close> are the lengths of the lists.
\<close>

record quality_file_t =
  qf_columns :: nat
  qf_blocks :: "symbol list list list"

text \<open>\<open>pmf_increment(get_cond_pmf(pmf_list, column, prev), s)\<close>: the PMF is updated in place.\<close>

definition cond_pmf_increment ::
  "cond_pmf_list_t \<Rightarrow> nat \<Rightarrow> symbol \<Rightarrow> symbol \<Rightarrow> cond_pmf_list_t option" where
  "cond_pmf_increment pmf_list column prev s = do {
     p \<leftarrow> get_cond_pmf pmf_list column prev;
     p' \<leftarrow> pmf_increment p s;
     Some (pmf_list\<lparr>cp_pmfs := (cp_pmfs pmf_list)[cond_pmf_index pmf_list column prev := p']\<rparr>)
   }"

text \<open>
  The body of the loop over the lines of \<open>calculate_statistics\<close>, and before it the body
  of its loop over the columns from 1 on.
\<close>

definition count_column :: "symbol list \<Rightarrow> nat \<Rightarrow> cond_pmf_list_t \<Rightarrow> cond_pmf_list_t option" where
  "count_column data column pmf_list = do {
     prev \<leftarrow> nth_chk data (column - 1);
     cur \<leftarrow> nth_chk data column;
     cond_pmf_increment pmf_list column prev cur
   }"

definition count_line :: "nat \<Rightarrow> symbol list \<Rightarrow> cond_pmf_list_t \<Rightarrow> cond_pmf_list_t option" where
  "count_line columns data pmf_list = do {
     d0 \<leftarrow> nth_chk data 0;
     pmf_list \<leftarrow> cond_pmf_increment pmf_list 0 0 d0;
     foldE (count_column data) [1..<columns] pmf_list
   }"

text \<open>The body of the inner loop over \<open>j\<close> that builds the marginal PMF of a column.\<close>

definition marginal_step :: "cond_pmf_list_t \<Rightarrow> nat \<Rightarrow> nat \<Rightarrow> pmf_t list \<Rightarrow> pmf_t list option" where
  "marginal_step pmf_list column j margs = do {
     m \<leftarrow> nth_chk margs column;
     c \<leftarrow> get_cond_pmf pmf_list column j;
     mprev \<leftarrow> nth_chk margs (column - 1);
     w \<leftarrow> get_probability mprev j;
     m' \<leftarrow> combine_pmfs m c (Num 1) w m;
     Some (margs[column := m'])
   }"

definition calculate_statistics :: "quality_file_t \<Rightarrow> cond_pmf_list_t \<Rightarrow> cond_pmf_list_t option" where
  "calculate_statistics info pmf_list = do {
     pmf_list \<leftarrow> foldE (\<lambda>block pmf_list. foldE (count_line (qf_columns info)) block pmf_list)
                   (qf_blocks info) pmf_list;
     let margs = alloc_pmf_list (qf_columns info) (cp_alphabet pmf_list);
     c0 \<leftarrow> get_cond_pmf pmf_list 0 0;
     m0 \<leftarrow> nth_chk margs 0;
     m0' \<leftarrow> combine_pmfs c0 m0 (Num 1) (Num 0) m0;
     let margs = margs[0 := m0'];
     margs \<leftarrow> foldE (\<lambda>column margs.
                  foldE (marginal_step pmf_list column) [0..<length (cp_alphabet pmf_list)] margs)
                [1..<qf_columns info] margs;
     Some (pmf_list\<lparr>cp_marginal_pmfs := Some margs\<rparr>)
   }"


section \<open>The codebook generator\<close>

text \<open>\<open>in_pmfs->marginal_pmfs->pmfs[c]\<close>.\<close>

definition marginal_pmf :: "cond_pmf_list_t \<Rightarrow> nat \<Rightarrow> pmf_t option" where
  "marginal_pmf in_pmfs c = do {
     margs \<leftarrow> deref (cp_marginal_pmfs in_pmfs);
     nth_chk margs c
   }"

definition compute_qpmf_quan_list ::
  "quantizer_t \<Rightarrow> quantizer_t \<Rightarrow> pmf_t list \<Rightarrow> dbl \<Rightarrow> alphabet \<Rightarrow> pmf_t list option" where
  "compute_qpmf_quan_list q_lo q_hi q_x_pmf ratio q_output_union =
     foldE (\<lambda>x q_x_pmf.
       foldE (\<lambda>idx q_x_pmf. do {
           q_symbol \<leftarrow> nth_chk q_output_union idx;
           lo_x \<leftarrow> nth_chk (qz_q q_lo) x;
           q_x_pmf \<leftarrow> (if lo_x = q_symbol then pmf_list_add q_x_pmf x idx ratio
                       else Some q_x_pmf);
           hi_x \<leftarrow> nth_chk (qz_q q_hi) x;
           (if hi_x = q_symbol then pmf_list_add q_x_pmf x idx (dsub (Num 1) ratio)
            else Some q_x_pmf)
         }) [0..<length q_output_union] q_x_pmf)
       [0..<length (qz_alphabet q_lo)] q_x_pmf"

text \<open>
  \<open>compute_qpmf_list\<close>, from the inside: the loop over \<open>x\<close> that adds the products of
  three probabilities to \<open>qpmf_list->pmfs[k]->pmf[idx]\<close>; the body of the loop over \<open>j\<close>,
  whose state is the pair of \<open>p_q_xq\<close> and the list; the function.
\<close>

definition qpmf_weight_loop ::
  "cond_pmf_list_t \<Rightarrow> nat \<Rightarrow> pmf_t list \<Rightarrow> nat \<Rightarrow> nat \<Rightarrow> nat \<Rightarrow> pmf_t list \<Rightarrow> pmf_t list option" where
  "qpmf_weight_loop in_pmfs column prev_qpmf_list k idx j qpmf_list =
     foldE (\<lambda>x qpmf_list. do {
         px \<leftarrow> nth_chk prev_qpmf_list x;
         a \<leftarrow> get_probability px j;
         c1 \<leftarrow> idx_sub column 1;
         cp \<leftarrow> get_cond_pmf in_pmfs c1 x;
         b \<leftarrow> get_probability cp k;
         c2 \<leftarrow> idx_sub column 2;
         m \<leftarrow> marginal_pmf in_pmfs c2;
         c \<leftarrow> get_probability m x;
         pmf_list_add qpmf_list k idx (dmul (dmul a b) c)
       }) [0..<length prev_qpmf_list] qpmf_list"

definition qpmf_context_step ::
  "cond_pmf_list_t \<Rightarrow> nat \<Rightarrow> pmf_t list \<Rightarrow> alphabet \<Rightarrow> 'w cond_quantizer_list_t
     \<Rightarrow> nat \<Rightarrow> nat \<Rightarrow> symbol \<Rightarrow> nat \<Rightarrow> dbl \<times> pmf_t list \<Rightarrow> (dbl \<times> pmf_t list) option" where
  "qpmf_context_step in_pmfs column prev_qpmf_list prev_q_alphabet_union q_list k idx q_symbol j st = do {
     let (p_q_xq, qpmf_list) = st;
     c1 \<leftarrow> idx_sub column 1;
     lo \<leftarrow> get_cond_quantizer_indexed q_list c1 (2 * j);
     hi \<leftarrow> get_cond_quantizer_indexed q_list c1 (2 * j + 1);
     q_prev_symbol \<leftarrow> nth_chk prev_q_alphabet_union j;
     q_lo \<leftarrow> deref lo;
     lo_k \<leftarrow> nth_chk (qz_q q_lo) k;
     let p_q_xq = (if lo_k = q_symbol then dadd p_q_xq (qz_ratio q_lo) else p_q_xq);
     q_hi \<leftarrow> deref hi;
     hi_k \<leftarrow> nth_chk (qz_q q_hi) k;
     let p_q_xq = (if hi_k = q_symbol then dadd p_q_xq (qz_ratio q_hi) else p_q_xq);
     qpmf_list \<leftarrow> qpmf_weight_loop in_pmfs column prev_qpmf_list k idx j qpmf_list;
     qpmf_list \<leftarrow> pmf_list_mul qpmf_list k idx p_q_xq;
     Some (p_q_xq, qpmf_list)
   }"

text \<open>\<open>pmfs[k]->pmf_ready = 1; renormalize_pmf(pmfs[k])\<close>.\<close>

definition renormalize_row :: "pmf_t list \<Rightarrow> nat \<Rightarrow> pmf_t list option" where
  "renormalize_row l k = do {
     p \<leftarrow> nth_chk l k;
     p' \<leftarrow> renormalize_pmf (p\<lparr>pmf_ready := True\<rparr>);
     Some (l[k := p'])
   }"

definition compute_qpmf_list ::
  "pmf_t list \<Rightarrow> cond_pmf_list_t \<Rightarrow> nat \<Rightarrow> pmf_t list \<Rightarrow> alphabet \<Rightarrow> alphabet
     \<Rightarrow> 'w cond_quantizer_list_t \<Rightarrow> pmf_t list option" where
  "compute_qpmf_list qpmf_list in_pmfs column prev_qpmf_list q_alphabet_union
       prev_q_alphabet_union q_list =
     foldE (\<lambda>k qpmf_list. do {
         qpmf_list \<leftarrow> foldE (\<lambda>idx qpmf_list. do {
             q_symbol \<leftarrow> nth_chk q_alphabet_union idx;
             st \<leftarrow> foldE (qpmf_context_step in_pmfs column prev_qpmf_list prev_q_alphabet_union
                            q_list k idx q_symbol)
                     [0..<length prev_q_alphabet_union] (Num 0, qpmf_list);
             Some (snd st)
           }) [0..<length q_alphabet_union] qpmf_list;
         renormalize_row qpmf_list k
       }) [0..<length qpmf_list] qpmf_list"

definition compute_xpmf_list ::
  "pmf_t list \<Rightarrow> cond_pmf_list_t \<Rightarrow> nat \<Rightarrow> pmf_t list \<Rightarrow> alphabet \<Rightarrow> pmf_t list option" where
  "compute_xpmf_list qpmf_list in_pmfs column xpmf_list q_alphabet_union =
     foldE (\<lambda>idx xpmf_list. do {
         q_symbol \<leftarrow> nth_chk q_alphabet_union idx;
         xpmf_list \<leftarrow> foldE (\<lambda>k xpmf_list.
             foldE (\<lambda>x xpmf_list. do {
                 qx \<leftarrow> nth_chk qpmf_list x;
                 a \<leftarrow> get_probability qx idx;
                 cp \<leftarrow> get_cond_pmf in_pmfs column x;
                 b \<leftarrow> get_probability cp k;
                 c1 \<leftarrow> idx_sub column 1;
                 m \<leftarrow> marginal_pmf in_pmfs c1;
                 c \<leftarrow> get_probability m x;
                 pmf_list_add xpmf_list idx k (dmul (dmul a b) c)
               }) [0..<length qpmf_list] xpmf_list)
             [0..<length qpmf_list] xpmf_list;
         renormalize_row xpmf_list idx
       }) [0..<length q_alphabet_union] xpmf_list"

text \<open>
  \<open>generate_codebooks\<close>. The quantizer designer \<open>generate_quantizer\<close> and the entropy
  \<open>get_entropy\<close> are not among the sources; they are the parameters \<open>gq\<close> (PMF,
  distortion table, states, ratio) and \<open>ent\<close>; the multiplier \<open>comp\<close> is \<open>cmp\<close>. The local variables that live across the
  columns are the state of the loop: the quantizer list, \<open>q_prev_output_union\<close>,
  \<open>prev_qpmf_list\<close>, and \<open>q_lo\<close>, \<open>q_hi\<close>, \<open>ratio\<close>, which column 1 reads as column 0
  left them.
\<close>

record 'w gen_state =
  gs_q_list :: "'w cond_quantizer_list_t"
  gs_q_prev_output_union :: alphabet
  gs_prev_qpmf_list :: "pmf_t list"
  gs_q_lo :: quantizer_t
  gs_q_hi :: quantizer_t
  gs_ratio :: dbl

text \<open>
  The union of the output alphabets of the quantizers of the previous column: the body
  of the loop over \<open>j\<close>, and the loop after its start from slot 0.
\<close>

definition union_step :: "'w cond_quantizer_list_t \<Rightarrow> nat \<Rightarrow> nat \<Rightarrow> alphabet \<Rightarrow> alphabet option" where
  "union_step q_list column j q_output_union = do {
     pj \<leftarrow> get_cond_quantizer_indexed q_list (column - 1) j;
     qj \<leftarrow> deref pj;
     Some (alphabet_union q_output_union (qz_output_alphabet qj))
   }"

definition next_output_union :: "'w cond_quantizer_list_t \<Rightarrow> nat \<Rightarrow> alphabet \<Rightarrow> alphabet option" where
  "next_output_union q_list column q_prev_output_union = do {
     p0 \<leftarrow> get_cond_quantizer_indexed q_list (column - 1) 0;
     q0 \<leftarrow> deref p0;
     foldE (union_step q_list column) [1..<2 * length q_prev_output_union]
       (duplicate_alphabet (qz_output_alphabet q0))
   }"

text \<open>The body of the loop that designs and stores the two quantizers of one context.\<close>

definition design_context ::
  "(pmf_t \<Rightarrow> 'd \<Rightarrow> nat \<Rightarrow> dbl \<Rightarrow> quantizer_t) \<Rightarrow> (pmf_t \<Rightarrow> dbl) \<Rightarrow> 'd \<Rightarrow> dbl \<Rightarrow> nat
     \<Rightarrow> pmf_t list \<Rightarrow> alphabet \<Rightarrow> nat \<Rightarrow> 'w gen_state \<Rightarrow> 'w gen_state option" where
  "design_context gq ent distortion cmp column xpmf_list q_output_union j st = do {
     q_symbol \<leftarrow> nth_chk q_output_union j;
     xp \<leftarrow> nth_chk xpmf_list j;
     (hi, lo, ratio) \<leftarrow> find_states (dmul (ent xp) cmp);
     let q_lo = gq xp distortion lo ratio;
     let q_hi = gq xp distortion hi (dsub (Num 1) ratio);
     q_list \<leftarrow> store_cond_quantizers q_lo q_hi (gs_q_list st) column q_symbol;
     Some (st\<lparr>gs_q_list := q_list, gs_q_lo := q_lo, gs_q_hi := q_hi, gs_ratio := ratio\<rparr>)
   }"

text \<open>The body of the loop over the columns from 1 on.\<close>

definition generate_column ::
  "(pmf_t \<Rightarrow> 'd \<Rightarrow> nat \<Rightarrow> dbl \<Rightarrow> quantizer_t) \<Rightarrow> (pmf_t \<Rightarrow> dbl) \<Rightarrow> 'd \<Rightarrow> dbl
     \<Rightarrow> cond_pmf_list_t \<Rightarrow> nat \<Rightarrow> 'w gen_state \<Rightarrow> 'w gen_state option" where
  "generate_column gq ent distortion cmp in_pmfs column st = do {
     q_output_union \<leftarrow> next_output_union (gs_q_list st) column (gs_q_prev_output_union st);
     q_list \<leftarrow> cond_quantizer_init_column (gs_q_list st) column q_output_union;
     let st = st\<lparr>gs_q_list := q_list\<rparr>;
     let qpmf_list = alloc_pmf_list (length (cp_alphabet in_pmfs)) q_output_union;
     let xpmf_list = alloc_pmf_list (length q_output_union) (cp_alphabet in_pmfs);
     qpmf_list \<leftarrow>
       (if column = 1
        then compute_qpmf_quan_list (gs_q_lo st) (gs_q_hi st) qpmf_list (gs_ratio st) q_output_union
        else compute_qpmf_list qpmf_list in_pmfs column (gs_prev_qpmf_list st) q_output_union
               (gs_q_prev_output_union st) q_list);
     xpmf_list \<leftarrow> compute_xpmf_list qpmf_list in_pmfs column xpmf_list q_output_union;
     st \<leftarrow> foldE (design_context gq ent distortion cmp column xpmf_list q_output_union)
             [0..<length q_output_union] st;
     Some (st\<lparr>gs_q_prev_output_union := q_output_union, gs_prev_qpmf_list := qpmf_list\<rparr>)
   }"

text \<open>Column 0: the statistics, then the two quantizers of the only context.\<close>

definition generate_column0 ::
  "(pmf_t \<Rightarrow> 'd \<Rightarrow> nat \<Rightarrow> dbl \<Rightarrow> quantizer_t) \<Rightarrow> (pmf_t \<Rightarrow> dbl) \<Rightarrow> 'w
     \<Rightarrow> quality_file_t \<Rightarrow> cond_pmf_list_t \<Rightarrow> 'd \<Rightarrow> dbl \<Rightarrow> 'w gen_state option" where
  "generate_column0 gq ent w info in_pmfs distortion cmp = do {
     let q_list = alloc_conditional_quantizer_list w (qf_columns info);
     let A = cp_alphabet in_pmfs;
     let q_output_union = alloc_alphabet 1;
     q_list \<leftarrow> cond_quantizer_init_column q_list 0 q_output_union;
     let qpmf_list = alloc_pmf_list (length A) q_output_union;
     p0 \<leftarrow> get_cond_pmf in_pmfs 0 0;
     (hi, lo, ratio) \<leftarrow> find_states (dmul (ent p0) cmp);
     let q_lo = gq p0 distortion lo ratio;
     let q_hi = gq p0 distortion hi (dsub (Num 1) ratio);
     q_list \<leftarrow> store_cond_quantizers q_lo q_hi q_list 0 0;
     Some \<lparr>gs_q_list = q_list, gs_q_prev_output_union = q_output_union,
           gs_prev_qpmf_list = qpmf_list, gs_q_lo = q_lo, gs_q_hi = q_hi, gs_ratio = ratio\<rparr>
   }"

definition generate_codebooks ::
  "(pmf_t \<Rightarrow> 'd \<Rightarrow> nat \<Rightarrow> dbl \<Rightarrow> quantizer_t) \<Rightarrow> (pmf_t \<Rightarrow> dbl) \<Rightarrow> 'w
     \<Rightarrow> quality_file_t \<Rightarrow> cond_pmf_list_t \<Rightarrow> 'd \<Rightarrow> dbl \<Rightarrow> 'w cond_quantizer_list_t option" where
  "generate_codebooks gq ent w info in_pmfs distortion cmp = do {
     in_pmfs \<leftarrow> calculate_statistics info in_pmfs;
     st \<leftarrow> generate_column0 gq ent w info in_pmfs distortion cmp;
     st \<leftarrow> foldE (generate_column gq ent distortion cmp in_pmfs) [1..<qf_columns info] st;
     Some (gs_q_list st)
   }"

section \<open>Writing the codebook file\<close>

text \<open>
  A \<open>char\<close> of the file is a byte. \<open>linebuf[k] = q[k] + 33\<close> keeps the low eight bits.
  The cast \<open>(uint8_t) x\<close> of a double is defined only when the truncated value fits.
\<close>

type_synonym byte = "8 word"

fun to_uint8 :: "dbl \<Rightarrow> byte option" where
  "to_uint8 (Num x) = (if - 1 < x \<and> x < 256 then Some (of_nat (nat \<lfloor>x\<rfloor>)) else None)"
| "to_uint8 _ = None"

text \<open>\<open>for (k = 0; k < size; ++k) linebuf[k] = q->q[k] + 33\<close>: the body, and the loop.\<close>

definition copy_step :: "quantizer_t \<Rightarrow> nat \<Rightarrow> byte list \<Rightarrow> byte list option" where
  "copy_step q_temp k linebuf = do {
     s \<leftarrow> nth_chk (qz_q q_temp) k;
     upd_chk linebuf k (of_nat (s + 33))
   }"

definition copy_q_to_line :: "quantizer_t \<Rightarrow> nat \<Rightarrow> byte list \<Rightarrow> byte list option" where
  "copy_q_to_line q_temp sz linebuf = foldE (copy_step q_temp) [0..<sz] linebuf"

text \<open>\<open>fwrite(buf, 1, n, fp)\<close> appends the first \<open>n\<close> bytes of the buffer.\<close>

definition fwrite :: "byte list \<Rightarrow> nat \<Rightarrow> byte list \<Rightarrow> byte list option" where
  "fwrite buf n out = (if n \<le> length buf then Some (out @ take n buf) else None)"

text \<open>The line of the ratios: the state is the line buffer.\<close>

definition ratio_line :: "'w cond_quantizer_list_t \<Rightarrow> nat \<Rightarrow> byte list \<Rightarrow> byte list option" where
  "ratio_line quantizers columns linebuf =
     foldE (\<lambda>i linebuf. do {
         rcol \<leftarrow> nth_chk (cq_ratio quantizers) i;
         rs \<leftarrow> deref rcol;
         r \<leftarrow> nth_chk rs 0;
         b \<leftarrow> to_uint8 (fmul r (Num 100));
         upd_chk linebuf i (b + 33)
       }) [0..<columns] linebuf"

text \<open>
  One line of a column \<open>i \<ge> 1\<close>: the body of the loop over \<open>j\<close>, and the loop; the
  state is the line buffer and the bytes written so far.
\<close>

definition context_step ::
  "'w cond_quantizer_list_t \<Rightarrow> nat \<Rightarrow> nat \<Rightarrow> byte list \<Rightarrow> nat \<Rightarrow> byte list \<times> byte list
     \<Rightarrow> (byte list \<times> byte list) option" where
  "context_step quantizers i sz blank j st = do {
     let (linebuf, out) = st;
     q_temp \<leftarrow> get_cond_quantizer quantizers i j;
     (case q_temp of
        Some q \<Rightarrow> do {
          linebuf \<leftarrow> copy_q_to_line q sz linebuf;
          out \<leftarrow> fwrite linebuf sz out;
          Some (linebuf, out)
        }
      | None \<Rightarrow> do {
          out \<leftarrow> fwrite blank sz out;
          Some (linebuf, out)
        })
   }"

definition context_line ::
  "'w cond_quantizer_list_t \<Rightarrow> nat \<Rightarrow> nat \<Rightarrow> byte list \<Rightarrow> byte list \<times> byte list
     \<Rightarrow> (byte list \<times> byte list) option" where
  "context_line quantizers i sz blank st = foldE (context_step quantizers i sz blank) [0..<sz] st"

text \<open>
  The body of the loop over \<open>z\<close>: one more line of column \<open>i\<close>; the state is the line
  buffer and the lines written so far.
\<close>

definition column_line ::
  "'w cond_quantizer_list_t \<Rightarrow> nat \<Rightarrow> nat \<Rightarrow> byte list \<Rightarrow> nat \<Rightarrow> byte list \<times> byte list list
     \<Rightarrow> (byte list \<times> byte list list) option" where
  "column_line quantizers i sz blank z st = do {
     let (linebuf, ls) = st;
     (linebuf, l) \<leftarrow> context_line quantizers i sz blank (linebuf, []);
     Some (linebuf, ls @ [l])
   }"

text \<open>
  The lines of the file, in order and without their final newline. The first line buffer
  is not initialised in C; no byte of it is written to the file before it has been set.
\<close>

definition codebook_lines :: "'w cond_quantizer_list_t \<Rightarrow> byte list list option" where
  "codebook_lines quantizers = do {
     let columns = cq_columns quantizers;
     p0 \<leftarrow> get_cond_quantizer_indexed quantizers 0 0;
     q_temp \<leftarrow> deref p0;
     let sz = length (qz_alphabet q_temp);
     let buflen = (if columns > sz then columns else sz);
     let linebuf = replicate buflen 0;
     let blank = replicate buflen 32;
     l1 \<leftarrow> fwrite blank columns [];
     l2 \<leftarrow> fwrite blank columns [];
     linebuf \<leftarrow> ratio_line quantizers columns linebuf;
     l3 \<leftarrow> fwrite linebuf columns [];
     linebuf \<leftarrow> copy_q_to_line q_temp sz linebuf;
     l4 \<leftarrow> fwrite linebuf sz [];
     l5 \<leftarrow> fwrite linebuf sz [];
     st \<leftarrow> foldE (\<lambda>i st. foldE (column_line quantizers i sz blank) [0..<2] st)
             [1..<columns] (linebuf, [l1, l2, l3, l4, l5]);
     Some (snd st)
   }"

text \<open>
  The claims about the file speak of the line that encodes a quantizer: the bytes
  \<open>q[i] + 33\<close> for the symbols \<open>i\<close> of its alphabet.
\<close>

definition encode_quantizer :: "quantizer_t \<Rightarrow> byte list" where
  "encode_quantizer q = map (\<lambda>i. of_nat (qz_q q ! i + 33)) [0..<length (qz_alphabet q)]"

text \<open>
  \<open>write_codebook\<close>: the bytes of the file, every line followed by a newline. Whether
  \<open>fopen\<close> succeeds is the parameter \<open>fopen_ok\<close>; when it fails the program exits.
\<close>

definition write_codebook :: "bool \<Rightarrow> 'w cond_quantizer_list_t \<Rightarrow> error + byte list" where
  "write_codebook fopen_ok quantizers =
     (case Option.bind (get_cond_quantizer_indexed quantizers 0 0) deref of
        None \<Rightarrow> Inl Undefined
      | Some q_temp \<Rightarrow>
          if \<not> fopen_ok then Inl OpenFailed
          else or_undefined (map_option (\<lambda>ls. concat (map (\<lambda>l. l @ [10]) ls))
                 (codebook_lines quantizers)))"

section \<open>The selector as the specification words it\<close>

text \<open>
  Section 4.7, to compare with \<open>choose_quantizer\<close>: the selector returns \<open>lo\<close> when the
  draw is \<open>< ratio\<close>, else \<open>hi\<close>.
\<close>

definition spec_choose :: "dbl \<Rightarrow> dbl \<Rightarrow> 'a \<Rightarrow> 'a \<Rightarrow> 'a" where
  "spec_choose u ratio lo hi = (if dlt u ratio then lo else hi)"

section \<open>The propagation step as the specification words it\<close>

text \<open>
  Section 4.8, step b, to compare with \<open>compute_qpmf_list\<close>: the contribution of the
  quantizers of context \<open>j\<close> to the output symbol \<open>q\<close> for the source symbol \<open>k\<close>; the
  weight of context \<open>j\<close>, from the previous list, the conditional PMFs \<open>cond ! x\<close> given the
  previous source symbol \<open>x\<close>, and the marginal \<open>marg\<close> of the previous column; the row of
  \<open>k\<close>, the sum over \<open>j\<close> of contribution times weight for every output symbol,
  renormalised.
\<close>

definition spec_contribution :: "quantizer_t \<Rightarrow> quantizer_t \<Rightarrow> nat \<Rightarrow> symbol \<Rightarrow> dbl" where
  "spec_contribution q_lo q_hi k q_symbol =
     dadd (if qz_q q_lo ! k = q_symbol then qz_ratio q_lo else Num 0)
          (if qz_q q_hi ! k = q_symbol then qz_ratio q_hi else Num 0)"

definition spec_weight :: "pmf_t list \<Rightarrow> pmf_t list \<Rightarrow> pmf_t \<Rightarrow> nat \<Rightarrow> nat \<Rightarrow> dbl" where
  "spec_weight prev_qpmf_list cond marg j k =
     dsum (map (\<lambda>x. dmul (dmul (probability (prev_qpmf_list ! x) j) (probability (cond ! x) k))
                       (probability marg x))
            [0..<length prev_qpmf_list])"

definition spec_qpmf_row ::
  "(quantizer_t \<times> quantizer_t) list \<Rightarrow> pmf_t list \<Rightarrow> pmf_t list \<Rightarrow> pmf_t \<Rightarrow> alphabet \<Rightarrow> nat
     \<Rightarrow> dbl list" where
  "spec_qpmf_row qs prev_qpmf_list cond marg q_alphabet_union k =
     (let row = map (\<lambda>q_symbol.
                  dsum (map (\<lambda>j. dmul (spec_contribution (fst (qs ! j)) (snd (qs ! j)) k q_symbol)
                                    (spec_weight prev_qpmf_list cond marg j k))
                         [0..<length qs]))
                q_alphabet_union
      in map (\<lambda>v. ddiv v (dsum row)) row)"

section \<open>Notions for the proofs\<close>

text \<open>
  The bytes that one context contributes to a line of column \<open>i\<close> of the codebook file,
  and the whole line.
\<close>

definition ctx_bytes :: "'w cond_quantizer_list_t \<Rightarrow> nat \<Rightarrow> nat \<Rightarrow> byte list \<Rightarrow> nat \<Rightarrow> byte list" where
  "ctx_bytes Q i sz blank j =
     (case get_cond_quantizer Q i j of
        Some (Some q) \<Rightarrow> map (\<lambda>k. of_nat (qz_q q ! k + 33)) [0..<sz]
      | _ \<Rightarrow> take sz blank)"

definition ctx_line :: "'w cond_quantizer_list_t \<Rightarrow> nat \<Rightarrow> nat \<Rightarrow> byte list \<Rightarrow> byte list" where
  "ctx_line Q i sz blank = concat (map (ctx_bytes Q i sz blank) [0..<sz])"

text \<open>
  The invariant of the counting loops: the list holds \<open>1 + n (columns - 1)\<close> PMFs of raw
  counts over an alphabet of \<open>n\<close> symbols; \<open>cnt0\<close> gives the counts of column 0 and \<open>cnt\<close>
  the counts of a column \<open>c \<ge> 1\<close> in the context \<open>s\<close>.
\<close>

definition counts_inv ::
  "nat \<Rightarrow> nat \<Rightarrow> cond_pmf_list_t \<Rightarrow> (nat \<Rightarrow> nat) \<Rightarrow> (nat \<Rightarrow> nat \<Rightarrow> nat \<Rightarrow> nat) \<Rightarrow> bool" where
  "counts_inv n columns P cnt0 cnt \<longleftrightarrow>
     length (cp_alphabet P) = n \<and> length (cp_pmfs P) = 1 + n * (columns - 1) \<and>
     (\<forall>i < length (cp_pmfs P).
        length (pmf_pmf (cp_pmfs P ! i)) = n \<and> \<not> pmf_ready (cp_pmfs P ! i)) \<and>
     (\<forall>k < n. pmf_pmf (cp_pmfs P ! 0) ! k = Num (real (cnt0 k))) \<and>
     (\<forall>c s k. 1 \<le> c \<and> c < columns \<and> s < n \<and> k < n \<longrightarrow>
        pmf_pmf (cp_pmfs P ! (1 + (c - 1) * n + s)) ! k = Num (real (cnt c s k)))"

text \<open>
  The input alphabet of column \<open>c\<close> is the union of the output alphabets of the
  quantizers stored at column \<open>c - 1\<close>, all present; the invariant of the loop over the
  columns of the generator, before column \<open>c\<close>.
\<close>

definition union_at :: "'w cond_quantizer_list_t \<Rightarrow> nat \<Rightarrow> bool" where
  "union_at Q c \<longleftrightarrow>
     (\<exists>A P fs. cq_input_alphabets Q ! c = Some A \<and> cq_input_alphabets Q ! (c - 1) = Some P \<and>
        cq_q Q ! (c - 1) = Some (map Some fs) \<and> length fs = 2 * length P \<and>
        set A = (\<Union>q\<in>set fs. set (qz_output_alphabet q)))"

definition gen_inv :: "nat \<Rightarrow> nat \<Rightarrow> 'w gen_state \<Rightarrow> bool" where
  "gen_inv columns c st \<longleftrightarrow>
     length (cq_input_alphabets (gs_q_list st)) = columns \<and>
     length (cq_q (gs_q_list st)) = columns \<and>
     length (cq_ratio (gs_q_list st)) = columns \<and>
     cq_input_alphabets (gs_q_list st) ! 0 = Some [0] \<and>
     cq_input_alphabets (gs_q_list st) ! (c - 1) = Some (gs_q_prev_output_union st) \<and>
     (\<exists>fs. cq_q (gs_q_list st) ! (c - 1) = Some (map Some fs) \<and>
        length fs = 2 * length (gs_q_prev_output_union st)) \<and>
     (\<forall>c'. 1 \<le> c' \<and> c' < c \<longrightarrow> union_at (gs_q_list st) c')"

section \<open>Example data\<close>

text \<open>
  Training data of four lines over \<open>{0, 1}\<close> in which every pair of neighbouring symbols
  occurs once, and the statistics that \<open>calculate_statistics\<close> computes for them.
\<close>

definition ex_info :: quality_file_t where
  "ex_info = \<lparr>qf_columns = 3, qf_blocks = [[[0, 0, 0], [0, 1, 1], [1, 0, 1], [1, 1, 0]]]\<rparr>"

definition ex_counts :: "real \<Rightarrow> pmf_t" where
  "ex_counts n = \<lparr>pmf_alphabet = [0, 1], pmf_pmf = [Num n, Num n], pmf_ready = False\<rparr>"

definition ex_half :: pmf_t where
  "ex_half = \<lparr>pmf_alphabet = [0, 1], pmf_pmf = [Num (1/2), Num (1/2)], pmf_ready = True\<rparr>"

definition ex_in_pmfs :: cond_pmf_list_t where
  "ex_in_pmfs =
     \<lparr>cp_columns = 3, cp_alphabet = [0, 1],
      cp_pmfs = [ex_counts 2, ex_counts 1, ex_counts 1, ex_counts 1, ex_counts 1],
      cp_marginal_pmfs = Some [ex_half, ex_half, ex_half]\<rparr>"

text \<open>
  Two quantizers over \<open>{0, 1}\<close>: the low one maps both symbols to 0 and carries the ratio
  1/4, the high one is the identity and carries 3/4. A quantizer designer and an entropy
  that give them for every context when \<open>comp = 1/2\<close>: one state maps every symbol to 0,
  more states give the identity; every PMF has the entropy 3/2.
\<close>

definition ex_lo :: quantizer_t where
  "ex_lo = \<lparr>qz_alphabet = [0, 1], qz_output_alphabet = [0], qz_q = [0, 0], qz_ratio = Num (1/4)\<rparr>"

definition ex_hi :: quantizer_t where
  "ex_hi = \<lparr>qz_alphabet = [0, 1], qz_output_alphabet = [0, 1], qz_q = [0, 1], qz_ratio = Num (3/4)\<rparr>"

definition ex_gq :: "pmf_t \<Rightarrow> unit \<Rightarrow> nat \<Rightarrow> dbl \<Rightarrow> quantizer_t" where
  "ex_gq p d states r =
     \<lparr>qz_alphabet = [0, 1], qz_output_alphabet = (if states = 1 then [0] else [0, 1]),
      qz_q = (if states = 1 then [0, 0] else [0, 1]), qz_ratio = r\<rparr>"

definition ex_ent :: "pmf_t \<Rightarrow> dbl" where
  "ex_ent p = Num (3/2)"

text \<open>
  The stores of the run of \<open>generate_codebooks\<close> on the example with \<open>comp = 1/2\<close>: after
  column 0; after the initialisation of column 1 and after column 1; after the
  initialisation of column 2 and after column 2, the result.
\<close>

definition ex_q0 :: "unit cond_quantizer_list_t" where
  "ex_q0 =
     \<lparr>cq_columns = 3, cq_input_alphabets = [Some [0], None, None],
      cq_q = [Some [Some ex_lo, Some ex_hi], None, None],
      cq_ratio = [Some [Num (1/4)], None, None], cq_well = ()\<rparr>"

definition ex_q1i :: "unit cond_quantizer_list_t" where
  "ex_q1i =
     \<lparr>cq_columns = 3, cq_input_alphabets = [Some [0], Some [0, 1], None],
      cq_q = [Some [Some ex_lo, Some ex_hi], Some [None, None, None, None], None],
      cq_ratio = [Some [Num (1/4)], Some [Num 0, Num 0], None], cq_well = ()\<rparr>"

definition ex_q1 :: "unit cond_quantizer_list_t" where
  "ex_q1 =
     \<lparr>cq_columns = 3, cq_input_alphabets = [Some [0], Some [0, 1], None],
      cq_q = [Some [Some ex_lo, Some ex_hi], Some [Some ex_lo, Some ex_hi, Some ex_lo, Some ex_hi],
              None],
      cq_ratio = [Some [Num (1/4)], Some [Num (1/4), Num (1/4)], None], cq_well = ()\<rparr>"

definition ex_q2i :: "unit cond_quantizer_list_t" where
  "ex_q2i =
     \<lparr>cq_columns = 3, cq_input_alphabets = [Some [0], Some [0, 1], Some [0, 1]],
      cq_q = [Some [Some ex_lo, Some ex_hi], Some [Some ex_lo, Some ex_hi, Some ex_lo, Some ex_hi],
              Some [None, None, None, None]],
      cq_ratio = [Some [Num (1/4)], Some [Num (1/4), Num (1/4)], Some [Num 0, Num 0]],
      cq_well = ()\<rparr>"

definition ex_q2 :: "unit cond_quantizer_list_t" where
  "ex_q2 =
     \<lparr>cq_columns = 3, cq_input_alphabets = [Some [0], Some [0, 1], Some [0, 1]],
      cq_q = [Some [Some ex_lo, Some ex_hi], Some [Some ex_lo, Some ex_hi, Some ex_lo, Some ex_hi],
              Some [Some ex_lo, Some ex_hi, Some ex_lo, Some ex_hi]],
      cq_ratio = [Some [Num (1/4)], Some [Num (1/4), Num (1/4)], Some [Num (1/4), Num (1/4)]],
      cq_well = ()\<rparr>"

text \<open>
  The state of the loop over the columns with the store \<open>Q\<close>: before column 1, and later
  with the list \<open>qpmf\<close> of the previous column.
\<close>

definition ex_st0 :: "unit cond_quantizer_list_t \<Rightarrow> unit gen_state" where
  "ex_st0 Q =
     \<lparr>gs_q_list = Q, gs_q_prev_output_union = [0], gs_prev_qpmf_list = alloc_pmf_list 2 [0],
      gs_q_lo = ex_lo, gs_q_hi = ex_hi, gs_ratio = Num (1/4)\<rparr>"

definition ex_st :: "unit cond_quantizer_list_t \<Rightarrow> pmf_t list \<Rightarrow> unit gen_state" where
  "ex_st Q qpmf =
     \<lparr>gs_q_list = Q, gs_q_prev_output_union = [0, 1], gs_prev_qpmf_list = qpmf,
      gs_q_lo = ex_lo, gs_q_hi = ex_hi, gs_ratio = Num (1/4)\<rparr>"

text \<open>
  \<open>P(Q\<^sub>0 | X\<^sub>0)\<close> as \<open>compute_qpmf_quan_list\<close> leaves it at column 1, and \<open>P(Q\<^sub>1 | X\<^sub>1)\<close> as
  \<open>compute_qpmf_list\<close> computes it at column 2.
\<close>

definition ex_prev_qpmf :: "pmf_t list" where
  "ex_prev_qpmf =
     [\<lparr>pmf_alphabet = [0, 1], pmf_pmf = [Num 1, Num 0], pmf_ready = False\<rparr>,
      \<lparr>pmf_alphabet = [0, 1], pmf_pmf = [Num (1/4), Num (3/4)], pmf_ready = False\<rparr>]"

definition ex_qpmf2 :: "pmf_t list" where
  "ex_qpmf2 =
     [\<lparr>pmf_alphabet = [0, 1], pmf_pmf = [Num 1, Num 0], pmf_ready = True\<rparr>,
      \<lparr>pmf_alphabet = [0, 1], pmf_pmf = [Num (17/98), Num (81/98)], pmf_ready = True\<rparr>]"

text \<open>
  A store of one column whose ratio is not a number: the column as
  \<open>cond_quantizer_init_column\<close> opens it, and the store that \<open>store_cond_quantizers\<close>
  leaves for a low quantizer with such a ratio.
\<close>

definition ex_nlo :: quantizer_t where
  "ex_nlo = \<lparr>qz_alphabet = [0, 1], qz_output_alphabet = [0], qz_q = [0, 0], qz_ratio = NaN\<rparr>"

definition ex_ninit :: "unit cond_quantizer_list_t" where
  "ex_ninit =
     \<lparr>cq_columns = 1, cq_input_alphabets = [Some [0]], cq_q = [Some [None, None]],
      cq_ratio = [Some [Num 0]], cq_well = ()\<rparr>"

definition ex_nan :: "unit cond_quantizer_list_t" where
  "ex_nan =
     \<lparr>cq_columns = 1, cq_input_alphabets = [Some [0]],
      cq_q = [Some [Some ex_nlo, Some ex_hi]],
      cq_ratio = [Some [NaN]], cq_well = ()\<rparr>"

text \<open>A generator of random numbers without state that always draws \<open>n\<close>.\<close>

definition ex_well :: "32 word \<Rightarrow> unit \<Rightarrow> 32 word \<times> unit" where
  "ex_well n w = (n, ())"

section \<open>Properties of the bit allocator\<close>

subsection \<open>Rounding\<close>

lemma rne_cases: "rne m = \<lfloor>m\<rfloor> \<or> rne m = \<lfloor>m\<rfloor> + 1"
  by (simp add: rne_def Let_def)

lemma rne_err: "\<bar>of_int (rne m) - m\<bar> \<le> 1/2"
  unfolding rne_def Let_def by (auto simp: abs_le_iff; linarith)

lemma rne_int [simp]: "rne (of_int k) = k"
  by (simp add: rne_def)

lemma rne_ge: "of_int k \<le> m \<Longrightarrow> k \<le> rne m"
proof -
  assume "of_int k \<le> m"
  then have "k \<le> \<lfloor>m\<rfloor>"
    by (simp add: le_floor_iff)
  then show ?thesis
    using rne_cases [of m] by linarith
qed

lemma rne_le:
  assumes "m \<le> of_int k"
  shows "rne m \<le> k"
proof (cases "m = of_int k")
  case True
  then show ?thesis by simp
next
  case False
  then have "m < of_int k"
    using assms by simp
  then have "\<lfloor>m\<rfloor> < k"
    by (simp add: floor_less_iff)
  then show ?thesis
    using rne_cases [of m] by auto
qed

lemma ulp_pos [simp]: "0 < ulp x"
  by (simp add: ulp_def)

lemma ulp_le:
  assumes "x \<noteq> 0"
  shows "ulp x \<le> \<bar>x\<bar> / 2 ^ 52 + 1 / 2 ^ 1074"
proof -
  define e where "e = \<lfloor>log 2 \<bar>x\<bar>\<rfloor>"
  have "of_int e \<le> log 2 \<bar>x\<bar>"
    by (simp add: e_def)
  then have "2 powr of_int e \<le> 2 powr log 2 \<bar>x\<bar>"
    by (simp only: powr_le_cancel_iff) 
  then have a: "2 powr of_int e \<le> \<bar>x\<bar>"
    using assms by simp
  have "ulp x = 2 powr (of_int (max e (- 1022)) - 52)"
    by (simp add: ulp_def e_def)
  also have "\<dots> = 2 powr of_int (max e (- 1022)) / 2 ^ 52"
    by (simp add: powr_diff)
  also have "2 powr of_int (max e (- 1022)) \<le> \<bar>x\<bar> + 2 powr (- 1022)"
  proof (cases "e \<le> - 1022")
    case True
    then have "max e (- 1022) = - 1022" by simp
    then show ?thesis by simp
  next
    case False
    then have m: "max e (- 1022) = e" by simp
    have "0 \<le> (2::real) powr (- 1022)" by simp
    then show ?thesis unfolding m using a by linarith
  qed
  finally have "ulp x \<le> (\<bar>x\<bar> + 2 powr (- 1022)) / 2 ^ 52"
    by (simp add: divide_right_mono)
  also have "\<dots> = \<bar>x\<bar> / 2 ^ 52 + 2 powr (- 1022) / 2 ^ 52"
    by (simp add: add_divide_distrib)
  also have "2 powr (- 1022) / 2 ^ 52 = (1::real) / 2 ^ 1074"
  proof -
    have "(2::real) powr (- 1022) = 1 / 2 ^ 1022"
      by (simp add: powr_minus_divide powr_realpow [symmetric])
    then show ?thesis
      by (simp add: power_add [symmetric])
  qed
  finally show ?thesis .
qed

lemma ulp_inverse:
  assumes "x \<noteq> 0" and "\<bar>x\<bar> < 2 ^ 53"
  shows "\<exists>N::nat. 1 / ulp x = 2 ^ N"
proof -
  define E where "E = max \<lfloor>log 2 \<bar>x\<bar>\<rfloor> (- 1022) - 52"
  have "log 2 \<bar>x\<bar> < 53"
    using assms by (simp add: log_less_iff)
  then have "\<lfloor>log 2 \<bar>x\<bar>\<rfloor> < 53"
    by (simp add: floor_less_iff)
  then have E: "E \<le> 0"
    by (simp add: E_def)
  have "ulp x = 2 powr of_int E"
    by (simp add: ulp_def E_def)
  then have "1 / ulp x = 2 powr of_int (- E)"
    by (simp add: powr_minus_divide)
  also have "\<dots> = 2 powr real (nat (- E))"
    using E by simp
  also have "\<dots> = 2 ^ nat (- E)"
    by (simp add: powr_realpow)
  finally show ?thesis
    by blast
qed

text \<open>
  Rounding of a value below 2 to the power 53: the result is finite, close, and on the
  same side of every integer.
\<close>

lemma rd_finite:
  assumes "\<bar>x\<bar> < 2 ^ 53"
  shows "\<exists>y. rd x = Num y \<and> \<bar>y - x\<bar> \<le> \<bar>x\<bar> / 2 ^ 53 + 1 / 2 ^ 1075 \<and>
           (\<forall>n. of_int n \<le> x \<longrightarrow> of_int n \<le> y) \<and> (\<forall>n. x \<le> of_int n \<longrightarrow> y \<le> of_int n)"
proof (cases "x = 0")
  case True
  then show ?thesis
    by (simp add: rd_def)
next
  case False
  define u where "u = ulp x"
  define m where "m = x / u"
  define y where "y = of_int (rne m) * u"
  have u: "0 < u"
    by (simp add: u_def)
  from ulp_inverse [OF False assms] obtain N :: nat where N: "1 / u = 2 ^ N"
    unfolding u_def by blast
  have x: "x = m * u"
    using u by (simp add: m_def)
  have "y - x = (of_int (rne m) - m) * u"
    by (simp add: y_def x algebra_simps)
  then have "\<bar>y - x\<bar> = \<bar>of_int (rne m) - m\<bar> * u"
    using u by (simp add: abs_mult)
  also have "\<dots> \<le> 1/2 * u"
    using rne_err [of m] u by (simp add: mult_right_mono)
  also have "\<dots> \<le> 1/2 * (\<bar>x\<bar> / 2 ^ 52 + 1 / 2 ^ 1074)"
    using ulp_le [OF False] by (simp add: u_def)
  also have "\<dots> = \<bar>x\<bar> / 2 ^ 53 + 1 / 2 ^ 1075"
    by simp
  finally have e: "\<bar>y - x\<bar> \<le> \<bar>x\<bar> / 2 ^ 53 + 1 / 2 ^ 1075" .
  have ge: "of_int n \<le> y" if "of_int n \<le> x" for n
  proof -
    have "of_int n * (1 / u) \<le> m"
      using that u by (simp add: m_def divide_right_mono)
    then have "of_int (n * 2 ^ N) \<le> m"
      by (simp add: N)
    then have "n * 2 ^ N \<le> rne m"
      by (rule rne_ge)
    then have "real_of_int (n * 2 ^ N) \<le> of_int (rne m)"
      by (simp only: of_int_le_iff)
    then have "of_int n * (1 / u) \<le> of_int (rne m)"
      by (simp add: N)
    then have "of_int n * (1 / u) * u \<le> of_int (rne m) * u"
      using u by (simp only: mult_le_cancel_right_pos)
    then show ?thesis
      using u by (simp add: y_def)
  qed
  have le: "y \<le> of_int n" if "x \<le> of_int n" for n
  proof -
    have "m \<le> of_int n * (1 / u)"
      using that u by (simp add: m_def divide_right_mono)
    then have "m \<le> of_int (n * 2 ^ N)"
      by (simp add: N)
    then have "rne m \<le> n * 2 ^ N"
      by (rule rne_le)
    then have "real_of_int (rne m) \<le> of_int (n * 2 ^ N)"
      by (simp only: of_int_le_iff)
    then have "of_int (rne m) \<le> of_int n * (1 / u)"
      by (simp add: N)
    then have "of_int (rne m) * u \<le> of_int n * (1 / u) * u"
      using u by (simp only: mult_le_cancel_right_pos)
    then show ?thesis
      using u by (simp add: y_def)
  qed
  have "\<bar>y\<bar> \<le> \<bar>x\<bar> + \<bar>y - x\<bar>"
    by simp
  also have "\<dots> \<le> \<bar>x\<bar> + (\<bar>x\<bar> / 2 ^ 53 + 1 / 2 ^ 1075)"
    using e by simp
  also have "\<dots> < 2 ^ 53 + (2 ^ 53 / 2 ^ 53 + 1)"
    using assms by (intro add_less_le_mono add_mono divide_right_mono) simp_all
  also have "\<dots> < 2 ^ 1024"
    by simp
  finally have "\<not> 2 ^ 1024 \<le> \<bar>y\<bar>"
    by simp
  then have "rd x = Num y"
    using False by (simp add: rd_def Let_def y_def m_def u_def)
  with e ge le show ?thesis
    by blast
qed


text \<open>A dyadic number with a mantissa of 53 bits is a double: rounding leaves it as it is.\<close>

lemma rd_dyadic:
  assumes "\<bar>m\<bar> < 2 ^ 53" and "k \<le> 1074"
  shows "rd (of_int m / 2 ^ k) = Num (of_int m / 2 ^ k)"
proof (cases "m = 0")
  case True
  then show ?thesis
    by (simp add: rd_def)
next
  case False
  define x :: real where "x = of_int m / 2 ^ k"
  define E where "E = max \<lfloor>log 2 \<bar>x\<bar>\<rfloor> (- 1022) - 52"
  have x0: "x \<noteq> 0"
    using False by (simp add: x_def)
  have "\<bar>real_of_int m\<bar> < 2 ^ 53"
    using assms(1) by (metis of_int_abs of_int_less_numeral_power_cancel_iff)
  then have ax: "\<bar>x\<bar> < 2 ^ 53 / 2 ^ k"
    by (simp add: x_def divide_strict_right_mono)
  have "(2::real) ^ 53 / 2 ^ k = 2 powr (53 - real k)"
    by (simp add: powr_diff powr_realpow)
  with ax have "\<bar>x\<bar> < 2 powr (53 - real k)"
    by simp
  then have "log 2 \<bar>x\<bar> < 53 - real k"
    using x0 by (simp add: log_less_iff)
  then have "log 2 \<bar>x\<bar> < of_int (53 - int k)"
    by simp
  then have "\<lfloor>log 2 \<bar>x\<bar>\<rfloor> < 53 - int k"
    by (simp only: floor_less_iff)
  then have E: "E \<le> - int k"
    using assms(2) by (simp add: E_def)
  define N where "N = nat (- int k - E)"
  have u: "ulp x = 2 powr of_int E"
    by (simp add: ulp_def E_def)
  have k: "(1::real) / 2 ^ k = 2 powr of_int (- int k)"
    by (simp add: powr_minus_divide powr_realpow)
  have "x / ulp x = of_int m * ((1 / 2 ^ k) / 2 powr of_int E)"
    unfolding u by (simp add: x_def)
  also have "\<dots> = of_int m * (2 powr of_int (- int k) / 2 powr of_int E)"
    by (simp only: k)
  also have "2 powr of_int (- int k) / 2 powr of_int E = 2 powr real N"
    using E by (simp add: powr_diff [symmetric] N_def)
  also have "\<dots> = 2 ^ N"
    by (simp add: powr_realpow)
  finally have "x / ulp x = of_int (m * 2 ^ N)"
    by simp
  then have "rne (x / ulp x) = m * 2 ^ N"
    by (simp only: rne_int)
  then have "of_int (rne (x / ulp x)) * ulp x = x / ulp x * ulp x"
    using \<open>x / ulp x = of_int (m * 2 ^ N)\<close> by simp
  moreover have "ulp x \<noteq> 0"
    by (simp add: ulp_def)
  ultimately have y: "of_int (rne (x / ulp x)) * ulp x = x"
    by simp
  have "(1::real) \<le> 2 ^ k"
    by simp
  then have "(2::real) ^ 53 / 2 ^ k \<le> 2 ^ 53"
    by (simp add: pos_divide_le_eq)
  with ax have "\<bar>x\<bar> < 2 ^ 53"
    by linarith
  also have "\<dots> < (2::real) ^ 1024"
    by simp
  finally have "\<not> 2 ^ 1024 \<le> \<bar>x\<bar>"
    by simp
  then have "rd x = Num x"
    using x0 by (simp add: rd_def Let_def y)
  then show ?thesis
    by (simp add: x_def)
qed

lemma rd_of_int: "\<bar>m\<bar> < 2 ^ 53 \<Longrightarrow> rd (of_int m) = Num (of_int m)"
  using rd_dyadic [of m 0] by simp

lemma rd_values [simp]:
  "rd 0 = Num 0" "rd 1 = Num 1" "rd (- 1) = Num (- 1)" "rd (1/4) = Num (1/4)"
  "rd (- (1/4)) = Num (- (1/4))" "rd 25 = Num 25" "rd 75 = Num 75"
  using rd_of_int [of 0] rd_of_int [of 1] rd_of_int [of "- 1"] rd_dyadic [of 1 2]
    rd_dyadic [of "- 1" 2] rd_of_int [of 25] rd_of_int [of 75]
  by simp_all


lemma rd_small:
  assumes "\<bar>x\<bar> \<le> 64"
  shows "\<exists>y. rd x = Num y \<and> \<bar>y - x\<bar> \<le> 1 / 2 ^ 46"
proof -
  have "\<bar>x\<bar> < 2 ^ 53"
    using assms by simp
  from rd_finite [OF this] obtain y where y: "rd x = Num y"
    and e: "\<bar>y - x\<bar> \<le> \<bar>x\<bar> / 2 ^ 53 + 1 / 2 ^ 1075"
    by blast
  have "\<bar>x\<bar> / 2 ^ 53 + 1 / 2 ^ 1075 \<le> 64 / 2 ^ 53 + 1 / 2 ^ 1075"
    using assms by (simp add: divide_right_mono)
  also have "\<dots> \<le> (1::real) / 2 ^ 46"
    by simp
  finally show ?thesis
    using y e by fastforce
qed

subsection \<open>The allocator\<close>

lemma find_states_zero: "find_states (Num 0) = Some (1, 1, NaN)"
  by (simp add: find_states_def fpow2_def flog2_def fsub_def fdiv_def of_uint_def dsub_def)

lemma powr_three_quarters: "3/2 < (2::real) powr (3/4)" "(2::real) powr (3/4) < 7/4"
proof -
  have e: "((2::real) powr (3/4)) ^ 4 = 8"
    by (simp add: powr_powr powr_realpow [symmetric])
  have p: "0 \<le> (2::real) powr (3/4)"
    by simp
  have "(3/2 :: real) ^ 4 < (2 powr (3/4)) ^ 4"
    unfolding e by (simp add: power_divide)
  then show "3/2 < (2::real) powr (3/4)"
    using p by (simp only: power_less_imp_less_base)
  have "(2 powr (3/4)) ^ 4 < (7/4 :: real) ^ 4"
    unfolding e by (simp add: power_divide)
  then show "(2::real) powr (3/4) < 7/4"
    by (rule power_less_imp_less_base) simp
qed

lemma fpow2_three_quarters: "\<exists>p. fpow2 (Num (3/4)) = Num p \<and> 1 < p \<and> p < 2"
proof -
  define x :: real where "x = 2 powr (3/4)"
  have x: "3/2 < x" "x < 7/4"
    using powr_three_quarters by (simp_all add: x_def)
  then have "\<bar>x\<bar> \<le> 64"
    by simp
  from rd_small [OF this] obtain p where p: "rd x = Num p" "\<bar>p - x\<bar> \<le> 1 / 2 ^ 46"
    by blast
  have "\<bar>p - x\<bar> \<le> 1/4"
    using p(2) by (rule order_trans) simp
  then have "1 < p" "p < 2"
    using x by linarith+
  then show ?thesis
    using p(1) by (simp add: fpow2_def x_def)
qed

lemma find_states_three_quarters:
  "find_states (Num (3/4)) = Some (2, 1, Num (1/4))"
proof -
  from fpow2_three_quarters obtain p where p: "fpow2 (Num (3/4)) = Num p" "1 < p" "p < 2"
    by blast
  have f: "\<lfloor>p\<rfloor> = 1"
    using p(2,3) by (simp add: floor_eq_iff)
  have c: "\<lceil>p\<rceil> = 2"
    using p(2,3) by (simp add: ceiling_eq_iff)
  show ?thesis
    using p(2,3) by (simp add: find_states_def p(1) f c flog2_def fsub_def fdiv_def of_uint_def dsub_def)
qed


lemma ratio_error_gen:
  fixes L U H a b s t \<rho> \<kappa> \<delta> :: real
  assumes "L < H" and "H < U" and "\<delta> \<le> U - L" and "U - L \<le> 1"
    and "\<bar>a - L\<bar> \<le> \<kappa>" and "\<bar>b - U\<bar> \<le> \<kappa>"
    and "\<bar>s - (H - b)\<bar> \<le> \<kappa>" and "\<bar>t - (a - b)\<bar> \<le> \<kappa>"
    and "0 < \<kappa>" and "8 * \<kappa> \<le> \<delta>"
  shows "t < 0" and "\<bar>s / t\<bar> \<le> 2"
    and "\<bar>\<rho> - s / t\<bar> \<le> \<kappa> \<Longrightarrow> \<bar>\<rho> * L + (1 - \<rho>) * U - H\<bar> \<le> 11 * \<kappa>"
proof -
  define D where "D = U - L"
  define T where "T = - t"
  define N where "N = - s"
  define \<mu> where "\<mu> = T - D"
  define \<nu> where "\<nu> = N - (U - H)"
  have D: "\<delta> \<le> D" "D \<le> 1"
    using assms(3,4) by (simp_all add: D_def)
  have mu: "\<bar>\<mu>\<bar> \<le> 3 * \<kappa>"
    using assms(5,6,8) unfolding \<mu>_def T_def D_def by linarith
  have nu: "\<bar>\<nu>\<bar> \<le> 2 * \<kappa>"
    using assms(6,7) unfolding \<nu>_def N_def by linarith
  have T: "D / 2 \<le> T"
    using mu D(1) assms(9,10) unfolding \<mu>_def by linarith
  have D0: "0 < D"
    using D(1) assms(9,10) by linarith
  then have T0: "0 < T"
    using T by linarith
  then show "t < 0"
    by (simp add: T_def)
  have UH: "0 \<le> U - H" "U - H \<le> D"
    using assms(1,2) by (simp_all add: D_def)
  have N: "\<bar>N\<bar> \<le> 2 * T"
    using nu UH mu D(1) assms(9,10) unfolding \<nu>_def \<mu>_def by linarith
  have st: "s / t = N / T"
    by (simp add: N_def T_def)
  have "\<bar>N / T\<bar> = \<bar>N\<bar> / T"
    using T0 by (simp add: abs_divide)
  also have "\<dots> \<le> 2"
    using N T0 by (simp add: pos_divide_le_eq)
  finally show "\<bar>s / t\<bar> \<le> 2"
    by (simp add: st)
  assume r: "\<bar>\<rho> - s / t\<bar> \<le> \<kappa>"
  define e where "e = \<rho> - N / T"
  have e: "\<bar>e\<bar> \<le> \<kappa>"
    using r by (simp add: e_def st)
  define X where "X = (U - H) * T - D * N"
  have X: "X = (U - H) * \<mu> - D * \<nu>"
    by (simp add: X_def \<mu>_def \<nu>_def algebra_simps)
  have "\<bar>(U - H) * \<mu>\<bar> = (U - H) * \<bar>\<mu>\<bar>"
    using UH(1) by (simp add: abs_mult)
  also have "\<dots> \<le> D * (3 * \<kappa>)"
    using UH mu by (intro mult_mono) simp_all
  finally have x1: "\<bar>(U - H) * \<mu>\<bar> \<le> D * (3 * \<kappa>)" .
  have "\<bar>D * \<nu>\<bar> = D * \<bar>\<nu>\<bar>"
    using D0 by (simp add: abs_mult)
  also have "\<dots> \<le> D * (2 * \<kappa>)"
    using D0 nu by (intro mult_left_mono) simp_all
  finally have x2: "\<bar>D * \<nu>\<bar> \<le> D * (2 * \<kappa>)" .
  have "\<bar>X\<bar> \<le> D * (3 * \<kappa>) + D * (2 * \<kappa>)"
    unfolding X using x1 x2 by linarith
  also have "\<dots> = D / 2 * (10 * \<kappa>)"
    by simp
  also have "\<dots> \<le> T * (10 * \<kappa>)"
    using T assms(9) by (intro mult_right_mono) simp_all
  finally have "\<bar>X\<bar> / T \<le> 10 * \<kappa>"
    using T0 by (simp add: pos_divide_le_eq mult.commute)
  then have x3: "\<bar>X / T\<bar> \<le> 10 * \<kappa>"
    using T0 by (simp add: abs_divide)
  have "\<bar>D * e\<bar> = D * \<bar>e\<bar>"
    using D0 by (simp add: abs_mult)
  also have "\<dots> \<le> 1 * \<kappa>"
    using D0 D(2) e by (intro mult_mono) simp_all
  finally have x4: "\<bar>D * e\<bar> \<le> \<kappa>"
    by simp
  define q where "q = N / T"
  have "\<rho> = q + e"
    by (simp add: e_def q_def)
  then have "\<rho> * L + (1 - \<rho>) * U - H = (U - H) - D * q - D * e"
    by (simp add: D_def algebra_simps)
  also have "(U - H) - D * q = X / T"
    using T0 by (simp add: X_def q_def field_simps)
  finally show "\<bar>\<rho> * L + (1 - \<rho>) * U - H\<bar> \<le> 11 * \<kappa>"
    using x3 x4 by linarith
qed

lemma ratio_error:
  fixes L U H a b s t \<rho> :: real
  assumes "L < H" and "H < U" and "1 / 2 ^ 33 \<le> U - L" and "U - L \<le> 1"
    and "\<bar>a - L\<bar> \<le> 1 / 2 ^ 46" and "\<bar>b - U\<bar> \<le> 1 / 2 ^ 46"
    and "\<bar>s - (H - b)\<bar> \<le> 1 / 2 ^ 46" and "\<bar>t - (a - b)\<bar> \<le> 1 / 2 ^ 46"
  shows "t < 0" and "\<bar>s / t\<bar> \<le> 2"
    and "\<bar>\<rho> - s / t\<bar> \<le> 1 / 2 ^ 46 \<Longrightarrow> \<bar>\<rho> * L + (1 - \<rho>) * U - H\<bar> \<le> 1 / 10 ^ 12"
proof -
  have k: "(0::real) < 1 / 2 ^ 46" "8 * (1 / 2 ^ 46) \<le> (1::real) / 2 ^ 33"
    by simp_all
  note g = ratio_error_gen [OF assms k]
  show "t < 0" and "\<bar>s / t\<bar> \<le> 2"
    by (rule g)+
  assume "\<bar>\<rho> - s / t\<bar> \<le> 1 / 2 ^ 46"
  then have "\<bar>\<rho> * L + (1 - \<rho>) * U - H\<bar> \<le> 11 * (1 / 2 ^ 46)"
    by (rule g(3))
  also have "\<dots> \<le> (1::real) / 10 ^ 12"
    by simp
  finally show "\<bar>\<rho> * L + (1 - \<rho>) * U - H\<bar> \<le> 1 / 10 ^ 12" .
qed


lemma log2_gap:
  fixes n :: int
  assumes "1 \<le> n" and "n + 1 \<le> 2 ^ 32"
  shows "1 / 2 ^ 33 \<le> log 2 (of_int n + 1) - log 2 (of_int n)"
    and "log 2 (of_int n + 1) - log 2 (of_int n) \<le> 1"
proof -
  define r :: real where "r = of_int n"
  have r: "1 \<le> r"
    using assms(1) by (simp add: r_def)
  have "real_of_int (n + 1) \<le> of_int (2 ^ 32)"
    using assms(2) by (simp only: of_int_le_iff)
  then have r32: "r + 1 \<le> 2 ^ 32"
    by (simp add: r_def)
  have d: "log 2 (r + 1) - log 2 r = log 2 ((r + 1) / r)"
    using r by (simp add: log_divide)
  have "(r + 1) / r \<le> 2"
    using r by (simp add: field_simps)
  then have "log 2 ((r + 1) / r) \<le> log 2 2"
    using r by (subst log_le_cancel_iff) simp_all
  then show "log 2 (of_int n + 1) - log 2 (of_int n) \<le> 1"
    using d by (simp add: r_def)
  have "ln (r / (r + 1)) \<le> r / (r + 1) - 1"
    using r by (intro ln_le_minus_one) simp
  also have "\<dots> = - (1 / (r + 1))"
    using r by (simp add: field_simps)
  finally have "1 / (r + 1) \<le> - ln (r / (r + 1))"
    by simp
  also have "- ln (r / (r + 1)) = ln ((r + 1) / r)"
    using r by (simp add: ln_div)
  finally have l: "1 / (r + 1) \<le> ln ((r + 1) / r)" .
  have "1 / 2 ^ 32 \<le> 1 / (r + 1)"
    using r r32 by (intro divide_left_mono) simp_all
  with l have l32: "1 / 2 ^ 32 \<le> ln ((r + 1) / r)"
    by linarith
  have ln2: "0 < ln (2::real)" "ln (2::real) \<le> 1"
    using ln_le_minus_one [of "2::real"] by simp_all
  have "ln ((r + 1) / r) * ln 2 \<le> ln ((r + 1) / r) * 1"
    using l32 ln2 by (intro mult_left_mono) simp_all
  then have "ln ((r + 1) / r) \<le> ln ((r + 1) / r) / ln 2"
    using ln2 by (simp add: pos_le_divide_eq)
  with l32 have "1 / 2 ^ 32 \<le> ln ((r + 1) / r) / ln 2"
    by (rule order_trans)
  moreover have "log 2 ((r + 1) / r) = ln ((r + 1) / r) / ln 2"
    by (simp add: log_def)
  ultimately have "1 / 2 ^ 32 \<le> log 2 ((r + 1) / r)"
    by (simp only:)
  moreover have "(1::real) / 2 ^ 33 \<le> 1 / 2 ^ 32"
    by simp
  ultimately have "1 / 2 ^ 33 \<le> log 2 ((r + 1) / r)"
    by (rule order_trans [rotated])
  then show "1 / 2 ^ 33 \<le> log 2 (of_int n + 1) - log 2 (of_int n)"
    using d by (simp add: r_def)
qed

lemma find_states_fpow2:
  assumes "0 \<le> H" and "2 powr H \<le> 2 ^ 32 - 1"
  shows "\<exists>p. fpow2 (Num H) = Num p \<and> 1 \<le> p \<and> p \<le> 2 ^ 32 - 1 \<and>
           \<bar>p - 2 powr H\<bar> \<le> 2 powr H / 2 ^ 53 + 1 / 2 ^ 1075 \<and>
           (\<forall>n. of_int n \<le> 2 powr H \<longrightarrow> of_int n \<le> p) \<and>
           (\<forall>n. 2 powr H \<le> of_int n \<longrightarrow> p \<le> of_int n) \<and>
           find_states (Num H) =
             Some (nat \<lceil>p\<rceil>, nat \<lfloor>p\<rfloor>,
               fdiv (fsub (Num H) (flog2 (of_uint (nat \<lceil>p\<rceil>))))
                    (fsub (flog2 (of_uint (nat \<lfloor>p\<rfloor>))) (flog2 (of_uint (nat \<lceil>p\<rceil>)))))"
proof -
  define x :: real where "x = 2 powr H"
  have x1: "1 \<le> x"
    using assms(1) by (simp add: x_def ge_one_powr_ge_zero)
  have x32: "x \<le> 2 ^ 32 - 1"
    using assms(2) by (simp add: x_def)
  have "\<bar>x\<bar> < 2 ^ 53"
    using x1 x32 by simp
  from rd_finite [OF this] obtain p where p: "rd x = Num p"
    and e: "\<bar>p - x\<bar> \<le> \<bar>x\<bar> / 2 ^ 53 + 1 / 2 ^ 1075"
    and ge: "\<forall>n. of_int n \<le> x \<longrightarrow> of_int n \<le> p"
    and le: "\<forall>n. x \<le> of_int n \<longrightarrow> p \<le> of_int n"
    by blast
  have "of_int 1 \<le> p"
    using ge x1 by (simp del: of_int_1)
  then have p1: "1 \<le> p"
    by simp
  have "x \<le> of_int (2 ^ 32 - 1)"
    using x32 by simp
  then have "p \<le> of_int (2 ^ 32 - 1)"
    using le by blast
  then have p32: "p \<le> 2 ^ 32 - 1"
    by simp
  have c32: "\<lceil>p\<rceil> \<le> 2 ^ 32 - 1"
    using p32 by (simp add: ceiling_le_iff)
  then have "real_of_int \<lceil>p\<rceil> \<le> of_int (2 ^ 32 - 1)"
    by (simp only: of_int_le_iff)
  then have c: "real_of_int \<lceil>p\<rceil> < 2 ^ 32"
    by simp
  have c0: "- 1 < real_of_int \<lceil>p\<rceil>"
    using p1 by (smt (verit) le_of_int_ceiling)
  have f: "fpow2 (Num H) = Num p"
    by (simp add: fpow2_def p x_def [symmetric])
  have "find_states (Num H) =
      Some (nat \<lceil>p\<rceil>, nat \<lfloor>p\<rfloor>,
        fdiv (fsub (Num H) (flog2 (of_uint (nat \<lceil>p\<rceil>))))
             (fsub (flog2 (of_uint (nat \<lfloor>p\<rfloor>))) (flog2 (of_uint (nat \<lceil>p\<rceil>)))))"
    using p1 p32 c c0 by (simp add: find_states_def f Let_def)
  moreover have "\<bar>x\<bar> = x"
    using x1 by simp
  ultimately show ?thesis
    using f p1 p32 e ge le unfolding x_def by auto
qed


lemma flog2_int:
  fixes n :: int
  assumes "1 \<le> n" and "n \<le> 2 ^ 32"
  shows "\<exists>a. flog2 (of_uint (nat n)) = Num a \<and> \<bar>a - log 2 (of_int n)\<bar> \<le> 1 / 2 ^ 46"
    and "0 \<le> log 2 (real_of_int n)" and "log 2 (real_of_int n) \<le> 32"
proof -
  have r: "1 \<le> real_of_int n"
    using assms(1) by simp
  have "real_of_int n \<le> of_int (2 ^ 32)"
    using assms(2) by (simp only: of_int_le_iff)
  then have r32: "real_of_int n \<le> 2 powr 32"
    by simp
  show l0: "0 \<le> log 2 (real_of_int n)"
    using r by simp
  show l32: "log 2 (real_of_int n) \<le> 32"
    using r r32 by (subst log_le_iff) simp_all
  have "\<bar>log 2 (real_of_int n)\<bar> \<le> 64"
    using l0 l32 by simp
  from rd_small [OF this] obtain a where "rd (log 2 (real_of_int n)) = Num a"
    and "\<bar>a - log 2 (real_of_int n)\<bar> \<le> 1 / 2 ^ 46"
    by blast
  then show "\<exists>a. flog2 (of_uint (nat n)) = Num a \<and> \<bar>a - log 2 (of_int n)\<bar> \<le> 1 / 2 ^ 46"
    using assms(1) by (simp add: flog2_def of_uint_def)
qed

lemma find_states_ratio:
  fixes n :: int
  assumes "1 \<le> n" and "n + 1 \<le> 2 ^ 32"
    and "log 2 (of_int n) < H" and "H < log 2 (of_int n + 1)"
  shows "\<exists>\<rho>. fdiv (fsub (Num H) (flog2 (of_uint (nat (n + 1)))))
                  (fsub (flog2 (of_uint (nat n))) (flog2 (of_uint (nat (n + 1))))) = Num \<rho> \<and>
           \<bar>\<rho> * log 2 (of_int n) + (1 - \<rho>) * log 2 (of_int n + 1) - H\<bar> \<le> 1 / 10 ^ 12"
proof -
  define L where "L = log 2 (real_of_int n)"
  define U where "U = log 2 (real_of_int n + 1)"
  have n1: "1 \<le> n + 1" "n \<le> 2 ^ 32"
    using assms(1,2) by simp_all
  from flog2_int [OF assms(1) n1(2)] obtain a where a: "flog2 (of_uint (nat n)) = Num a"
    and ea: "\<bar>a - L\<bar> \<le> 1 / 2 ^ 46" and L0: "0 \<le> L"
    unfolding L_def by blast
  from flog2_int [OF n1(1) assms(2)] obtain b where b: "flog2 (of_uint (nat (n + 1))) = Num b"
    and eb: "\<bar>b - U\<bar> \<le> 1 / 2 ^ 46" and U32: "U \<le> 32"
    unfolding U_def by auto
  have LH: "L < H" "H < U"
    using assms(3,4) by (simp_all add: L_def U_def)
  have gap: "1 / 2 ^ 33 \<le> U - L" "U - L \<le> 1"
    using log2_gap [OF assms(1,2)] by (simp_all add: L_def U_def)
  have k: "(1::real) / 2 ^ 46 \<le> 1"
    by simp
  have "\<bar>H - b\<bar> \<le> 64"
    using LH L0 U32 eb k by linarith
  from rd_small [OF this] obtain s where s: "rd (H - b) = Num s"
    and es: "\<bar>s - (H - b)\<bar> \<le> 1 / 2 ^ 46"
    by blast
  have "\<bar>a - b\<bar> \<le> 64"
    using LH L0 U32 ea eb k by linarith
  from rd_small [OF this] obtain t where t: "rd (a - b) = Num t"
    and et: "\<bar>t - (a - b)\<bar> \<le> 1 / 2 ^ 46"
    by blast
  note err = ratio_error [OF LH gap ea eb es et]
  have "\<bar>s / t\<bar> \<le> 64"
    using err(2) by simp
  from rd_small [OF this] obtain \<rho> where r: "rd (s / t) = Num \<rho>"
    and er: "\<bar>\<rho> - s / t\<bar> \<le> 1 / 2 ^ 46"
    by blast
  have "fdiv (fsub (Num H) (Num b)) (fsub (Num a) (Num b)) = Num \<rho>"
    using err(1) by (simp add: fdiv_def fsub_def dsub_def s t r)
  moreover have "\<bar>\<rho> * L + (1 - \<rho>) * U - H\<bar> \<le> 1 / 10 ^ 12"
    using er by (rule err(3))
  ultimately show ?thesis
    unfolding a b L_def U_def by blast
qed

text \<open>
  Claim C1. For a target entropy \<open>H \<ge> 0\<close> whose power \<open>2 powr H\<close> fits the state
  counts, \<open>find_states\<close> returns \<open>low = \<lfloor>p\<rfloor>\<close> and \<open>high = \<lceil>p\<rceil>\<close> for the double \<open>p\<close> that
  \<open>pow(2, H)\<close> returns. The two differ as soon as \<open>2 powr H\<close> is at a relative distance
  of more than 2 to the power -51 from the integers around it. Whenever they differ,
  \<open>low = \<lfloor>2 powr H\<rfloor>\<close>, \<open>high = \<lceil>2 powr H\<rceil>\<close>, and the ratio \<open>r\<close> is a number with
  \<open>r log\<^sub>2 low + (1 - r) log\<^sub>2 high = H\<close> up to the rounding of the doubles, within the
  1e-12 of the specification.
\<close>

theorem find_states_identity:
  assumes "0 \<le> H" and "2 powr H \<le> 2 ^ 32 - 1"
  shows "\<exists>p r. fpow2 (Num H) = Num p \<and> find_states (Num H) = Some (nat \<lceil>p\<rceil>, nat \<lfloor>p\<rfloor>, r) \<and>
     (of_int \<lfloor>2 powr H\<rfloor> * (1 + 1 / 2 ^ 51) < 2 powr H \<and>
      2 powr H < of_int \<lceil>2 powr H\<rceil> * (1 - 1 / 2 ^ 51) \<longrightarrow> \<lfloor>p\<rfloor> \<noteq> \<lceil>p\<rceil>) \<and>
     (\<lfloor>p\<rfloor> \<noteq> \<lceil>p\<rceil> \<longrightarrow>
        nat \<lfloor>p\<rfloor> = nat \<lfloor>2 powr H\<rfloor> \<and> nat \<lceil>p\<rceil> = nat \<lceil>2 powr H\<rceil> \<and>
        (\<exists>\<rho>. r = Num \<rho> \<and>
           \<bar>\<rho> * log 2 (real (nat \<lfloor>2 powr H\<rfloor>)) +
            (1 - \<rho>) * log 2 (real (nat \<lceil>2 powr H\<rceil>)) - H\<bar> \<le> 1 / 10 ^ 12))"
proof -
  define x :: real where "x = 2 powr H"
  from find_states_fpow2 [OF assms] obtain p where f: "fpow2 (Num H) = Num p"
    and p1: "1 \<le> p" and p32: "p \<le> 2 ^ 32 - 1"
    and e: "\<bar>p - x\<bar> \<le> x / 2 ^ 53 + 1 / 2 ^ 1075"
    and ge: "\<forall>n. of_int n \<le> x \<longrightarrow> of_int n \<le> p"
    and le: "\<forall>n. x \<le> of_int n \<longrightarrow> p \<le> of_int n"
    and run: "find_states (Num H) =
      Some (nat \<lceil>p\<rceil>, nat \<lfloor>p\<rfloor>,
        fdiv (fsub (Num H) (flog2 (of_uint (nat \<lceil>p\<rceil>))))
             (fsub (flog2 (of_uint (nat \<lfloor>p\<rfloor>))) (flog2 (of_uint (nat \<lceil>p\<rceil>)))))"
    unfolding x_def by blast
  define r where "r = fdiv (fsub (Num H) (flog2 (of_uint (nat \<lceil>p\<rceil>))))
      (fsub (flog2 (of_uint (nat \<lfloor>p\<rfloor>))) (flog2 (of_uint (nat \<lceil>p\<rceil>))))"
  have x1: "1 \<le> x"
    using assms(1) by (simp add: x_def ge_one_powr_ge_zero)
  have far: "\<lfloor>p\<rfloor> \<noteq> \<lceil>p\<rceil>"
    if a: "of_int \<lfloor>x\<rfloor> * (1 + 1 / 2 ^ 51) < x" and b: "x < of_int \<lceil>x\<rceil> * (1 - 1 / 2 ^ 51)"
  proof -
    define m where "m = \<lfloor>x\<rfloor>"
    have m1: "1 \<le> real_of_int m"
      using x1 by (simp add: m_def le_floor_iff)
    have "x \<noteq> of_int m"
      using a m1 by (auto simp: m_def [symmetric] algebra_simps)
    then have c: "\<lceil>x\<rceil> = m + 1"
      by (simp add: ceiling_altdef m_def)
    have mx: "of_int m \<le> x" "x < of_int m + 1"
      by (simp_all add: m_def)
    define \<epsilon> :: real where "\<epsilon> = 1 / 2 ^ 54"
    define A where "A = x * \<epsilon>"
    define B where "B = of_int m * \<epsilon>"
    have eps: "0 < \<epsilon>"
      by (simp add: \<epsilon>_def)
    have "x / 2 ^ 53 + 1 / 2 ^ 1075 \<le> x * (2 * \<epsilon>) + \<epsilon>"
      by (simp add: \<epsilon>_def)
    with e have e': "\<bar>p - x\<bar> \<le> 2 * A + \<epsilon>"
      by (simp add: A_def)
    have e8: "(1::real) / 2 ^ 51 = 8 * \<epsilon>"
      by (simp add: \<epsilon>_def)
    have a': "of_int m + 8 * B < x"
      using a unfolding e8 m_def [symmetric] B_def by (simp add: algebra_simps)
    have b': "x < of_int m + 1 - 8 * B - 8 * \<epsilon>"
      using b unfolding e8 c B_def by (simp add: algebra_simps)
    have "x * \<epsilon> \<le> (of_int m + 1) * \<epsilon>"
      using mx(2) eps by (intro mult_right_mono) simp_all
    then have xe: "A \<le> B + \<epsilon>"
      by (simp add: A_def B_def algebra_simps)
    have "1 * \<epsilon> \<le> of_int m * \<epsilon>"
      using m1 eps by (intro mult_right_mono) simp_all
    then have me: "\<epsilon> \<le> B"
      by (simp add: B_def)
    have lo: "of_int m < p"
      using e' a' xe me eps by linarith
    have hi: "p < of_int m + 1"
      using e' b' xe me eps by linarith
    have "\<lfloor>p\<rfloor> = m"
      using lo hi by (simp add: floor_eq_iff)
    moreover have "\<lceil>p\<rceil> = m + 1"
      using lo hi by (simp add: ceiling_eq_iff)
    ultimately show ?thesis
      by simp
  qed
  have near: "nat \<lfloor>p\<rfloor> = nat \<lfloor>x\<rfloor> \<and> nat \<lceil>p\<rceil> = nat \<lceil>x\<rceil> \<and>
      (\<exists>\<rho>. r = Num \<rho> \<and>
         \<bar>\<rho> * log 2 (real (nat \<lfloor>x\<rfloor>)) + (1 - \<rho>) * log 2 (real (nat \<lceil>x\<rceil>)) - H\<bar> \<le> 1 / 10 ^ 12)"
    if d: "\<lfloor>p\<rfloor> \<noteq> \<lceil>p\<rceil>"
  proof -
    define n where "n = \<lfloor>p\<rfloor>"
    have ni: "p \<noteq> of_int n"
    proof
      assume q: "p = of_int n"
      have "\<lceil>p\<rceil> = n"
        by (subst q) simp
      then show False
        using d by (simp add: n_def)
    qed
    have "of_int n \<le> p"
      by (simp add: n_def)
    with ni have np1: "of_int n < p"
      by simp
    have np2: "p < of_int n + 1"
      unfolding n_def by linarith
    note np = np1 np2
    have c: "\<lceil>p\<rceil> = n + 1"
      using np by (simp add: ceiling_eq_iff)
    have "\<not> x \<le> of_int n"
      using le np(1) by (meson not_le)
    then have nx: "of_int n < x"
      by simp
    have "\<not> of_int (n + 1) \<le> x"
      using ge np(2) by (metis not_le of_int_1 of_int_add)
    then have xn: "x < of_int n + 1"
      by simp
    have fx: "\<lfloor>x\<rfloor> = n"
      using nx xn by (simp add: floor_eq_iff)
    have cx: "\<lceil>x\<rceil> = n + 1"
      using nx xn by (simp add: ceiling_eq_iff)
    have n1: "1 \<le> n"
      using p1 by (simp add: n_def le_floor_iff)
    have "\<lceil>p\<rceil> \<le> 2 ^ 32 - 1"
      using p32 by (simp add: ceiling_le_iff)
    then have n32: "n + 1 \<le> 2 ^ 32"
      by (simp add: c)
    have x0: "0 < x"
      using x1 by simp
    have lx: "log 2 x = H"
      by (simp add: x_def)
    have "log 2 (of_int n) < log 2 x"
      using nx n1 x0 by (subst log_less_cancel_iff) simp_all
    then have LH: "log 2 (of_int n) < H"
      by (simp only: lx)
    have "log 2 x < log 2 (of_int n + 1)"
      using xn n1 x0 by (subst log_less_cancel_iff) simp_all
    then have HU: "H < log 2 (of_int n + 1)"
      by (simp only: lx)
    from find_states_ratio [OF n1 n32 LH HU] obtain \<rho> where
      "fdiv (fsub (Num H) (flog2 (of_uint (nat (n + 1)))))
         (fsub (flog2 (of_uint (nat n))) (flog2 (of_uint (nat (n + 1))))) = Num \<rho>"
      and b: "\<bar>\<rho> * log 2 (of_int n) + (1 - \<rho>) * log 2 (of_int n + 1) - H\<bar> \<le> 1 / 10 ^ 12"
      by blast
    then have r: "r = Num \<rho>"
      by (simp add: r_def c n_def [symmetric])
    have rn: "real (nat n) = of_int n" "real (nat (n + 1)) = of_int n + 1"
      using n1 by simp_all
    show ?thesis
      unfolding fx cx c n_def [symmetric] rn using r b by blast
  qed
  show ?thesis
    using f run far near unfolding r_def [symmetric] x_def by blast
qed

theorem find_states_identity_witness:
  "\<exists>p r. fpow2 (Num (3/4)) = Num p \<and>
     find_states (Num (3/4)) = Some (nat \<lceil>p\<rceil>, nat \<lfloor>p\<rfloor>, r) \<and> \<lfloor>p\<rfloor> \<noteq> \<lceil>p\<rceil> \<and>
     nat \<lfloor>p\<rfloor> = nat \<lfloor>(2::real) powr (3/4)\<rfloor> \<and> nat \<lceil>p\<rceil> = nat \<lceil>(2::real) powr (3/4)\<rceil> \<and>
     nat \<lfloor>(2::real) powr (3/4)\<rfloor> = 1 \<and> nat \<lceil>(2::real) powr (3/4)\<rceil> = 2 \<and>
     (\<exists>\<rho>. r = Num \<rho> \<and>
        \<bar>\<rho> * log 2 (real (nat \<lfloor>(2::real) powr (3/4)\<rfloor>)) +
         (1 - \<rho>) * log 2 (real (nat \<lceil>(2::real) powr (3/4)\<rceil>)) - 3/4\<bar> \<le> 1 / 10 ^ 12)"
proof -
  define x :: real where "x = 2 powr (3/4)"
  have x: "3/2 < x" "x < 7/4"
    using powr_three_quarters by (simp_all add: x_def)
  have f: "\<lfloor>x\<rfloor> = 1"
    using x by (simp add: floor_eq_iff)
  have c: "\<lceil>x\<rceil> = 2"
    using x by (simp add: ceiling_eq_iff)
  have h: "(0::real) \<le> 3/4" "x \<le> 2 ^ 32 - 1"
    using x by simp_all
  have far: "of_int \<lfloor>x\<rfloor> * (1 + 1 / 2 ^ 51) < x \<and> x < of_int \<lceil>x\<rceil> * (1 - 1 / 2 ^ 51)"
    using x unfolding f c by simp
  from find_states_identity [OF h [unfolded x_def]] far f c show ?thesis
    unfolding x_def by fastforce
qed

text \<open>
  Claim C6 says that for \<open>H = 0\<close> the allocator returns \<open>low = 1\<close>, \<open>high = 1\<close> and the
  ratio 1. The code has no case for \<open>low = high\<close>: it computes
  \<open>(0 - 0) / (0 - 0)\<close>, which is not a number.
\<close>

theorem find_states_zero_ratio:
  "find_states (Num 0) = Some (1, 1, NaN) \<and> NaN \<noteq> Num 1"
  by (simp add: find_states_def fpow2_def flog2_def fsub_def fdiv_def of_uint_def dsub_def)

section \<open>Properties of the conditional quantizer list\<close>

lemma get_symbol_index_Some:
  "get_symbol_index A s = Some i \<Longrightarrow> i < length A \<and> A ! i = s"
  by (induction A arbitrary: i) (auto split: if_splits)

lemma get_symbol_index_None: "get_symbol_index A s = None \<longleftrightarrow> s \<notin> set A"
  by (induction A) auto

lemma nth_chk_Some [simp]: "nth_chk xs i = Some v \<longleftrightarrow> i < length xs \<and> xs ! i = v"
  by (auto simp: nth_chk_def)

lemma nth_chk_None [simp]: "nth_chk xs i = None \<longleftrightarrow> length xs \<le> i"
  by (auto simp: nth_chk_def)

lemma upd_chk_Some [simp]: "upd_chk xs i v = Some ys \<longleftrightarrow> i < length xs \<and> ys = xs[i := v]"
  by (auto simp: upd_chk_def)

lemma upd_chk_None [simp]: "upd_chk xs i v = None \<longleftrightarrow> length xs \<le> i"
  by (auto simp: upd_chk_def)

lemma nth_chk_in_range [simp]: "i < length xs \<Longrightarrow> nth_chk xs i = Some (xs ! i)"
  by (simp add: nth_chk_def)

lemma upd_chk_in_range [simp]: "i < length xs \<Longrightarrow> upd_chk xs i v = Some (xs[i := v])"
  by (simp add: upd_chk_def)

text \<open>
  Claim C10. After \<open>store_cond_quantizers(lo, hi, list, column, prev)\<close> on a column whose
  input alphabet holds \<open>prev\<close> at index \<open>idx\<close>, slot \<open>2 idx\<close> of the column holds \<open>lo\<close>,
  slot \<open>2 idx + 1\<close> holds \<open>hi\<close>, and the ratio of the context is the field \<open>ratio\<close> of
  \<open>lo\<close>.
\<close>

theorem store_cond_quantizers_slots:
  assumes "column < length (cq_input_alphabets list)"
    and "cq_input_alphabets list ! column = Some A"
    and "get_symbol_index A prev = Some idx"
    and "column < length (cq_q list)" and "cq_q list ! column = Some qs"
    and "length qs = 2 * length A"
    and "column < length (cq_ratio list)" and "cq_ratio list ! column = Some rs"
    and "length rs = length A"
  shows "\<exists>list'. store_cond_quantizers lo hi list column prev = Some list' \<and>
           get_cond_quantizer_indexed list' column (2 * idx) = Some (Some lo) \<and>
           get_cond_quantizer_indexed list' column (2 * idx + 1) = Some (Some hi) \<and>
           (\<exists>rs'. nth_chk (cq_ratio list') column = Some (Some rs') \<and>
              nth_chk rs' idx = Some (qz_ratio lo))"
proof -
  have i: "idx < length A"
    using assms(3) get_symbol_index_Some by blast
  then have j: "2 * idx < length qs" "2 * idx + 1 < length qs" "idx < length rs"
    using assms(6,9) by simp_all
  show ?thesis
    using assms i j
    by (simp add: store_cond_quantizers_def get_cond_quantizer_indexed_def)
qed

theorem store_cond_quantizers_slots_witness:
  "\<exists>list'. store_cond_quantizers ex_lo ex_hi ex_q2i 2 1 = Some list' \<and>
           get_cond_quantizer_indexed list' 2 (2 * 1) = Some (Some ex_lo) \<and>
           get_cond_quantizer_indexed list' 2 (2 * 1 + 1) = Some (Some ex_hi) \<and>
           (\<exists>rs'. nth_chk (cq_ratio list') 2 = Some (Some rs') \<and>
              nth_chk rs' 1 = Some (qz_ratio ex_lo))"
  by (rule store_cond_quantizers_slots [where A = "[0, 1]" and qs = "[None, None, None, None]"
        and rs = "[Num 0, Num 0]"])
     (simp_all add: ex_q2i_def)

text \<open>
  Claim C8. When the symbol \<open>s\<close> is not in the input alphabet of the column,
  \<open>choose_quantizer\<close> fails with the lookup miss (its assertion) and returns no quantizer.
\<close>

theorem choose_quantizer_lookup_miss:
  assumes "column < length (cq_input_alphabets list)"
    and "cq_input_alphabets list ! column = Some A"
    and "s \<notin> set A"
  shows "choose_quantizer well_1024a list column s = Inl AlphabetLookupMiss"
  using assms by (simp add: choose_quantizer_def get_symbol_index_None [symmetric])

theorem choose_quantizer_lookup_miss_witness:
  "choose_quantizer (ex_well 0) ex_q2 2 2 = Inl AlphabetLookupMiss"
  by (rule choose_quantizer_lookup_miss [where A = "[0, 1]"]) (simp_all add: ex_q2_def)

lemma fdiv_draw:
  "\<exists>u. fdiv (of_uint (unat (w :: 32 word))) (of_uint UINT32_MAX) = Num u \<and> 0 \<le> u \<and> u \<le> 1"
proof -
  define x where "x = real (unat w) / real UINT32_MAX"
  have "unat w < 2 ^ 32"
    using unsigned_less [of w] by simp
  then have "unat w \<le> UINT32_MAX"
    by (simp add: UINT32_MAX_def)
  then have "real (unat w) \<le> real UINT32_MAX"
    by (simp only: of_nat_le_iff)
  moreover have m: "0 < real UINT32_MAX"
    by (simp add: UINT32_MAX_def)
  ultimately have "x \<le> 1"
    by (simp add: x_def)
  moreover have "0 \<le> x"
    unfolding x_def by (intro divide_nonneg_nonneg of_nat_0_le_iff)
  ultimately have x: "0 \<le> x" "x \<le> 1"
    by simp_all
  then have "\<bar>x\<bar> < 2 ^ 53"
    by simp
  from rd_finite [OF this] obtain u where u: "rd x = Num u"
    and ge: "\<forall>n. of_int n \<le> x \<longrightarrow> of_int n \<le> u"
    and le: "\<forall>n. x \<le> of_int n \<longrightarrow> u \<le> of_int n"
    by blast
  have "of_int 0 \<le> u"
    using ge x(1) by (simp del: of_int_0)
  moreover have "u \<le> of_int 1"
    using le x(2) by (simp del: of_int_1)
  moreover have "fdiv (of_uint (unat w)) (of_uint UINT32_MAX) = Num u"
    using m u by (simp add: fdiv_def of_uint_def x_def)
  ultimately show ?thesis
    by simp
qed

text \<open>
  Claim C5, amended. For a context symbol \<open>p\<close> of the input alphabet of the column, at
  index \<open>idx\<close>, \<open>choose_quantizer\<close> draws one value \<open>w\<close> from the generator state of the
  store, which it advances; \<open>u\<close> is the double \<open>w / UINT32_MAX\<close>, a value in \<open>[0, 1]\<close>. It
  returns the high quantizer (slot \<open>2 idx + 1\<close>) exactly when the comparison
  \<open>u >= ratio\<close> of the doubles holds, and the low quantizer (slot \<open>2 idx\<close>) otherwise:
  for a ratio that is a number, the low quantizer exactly when \<open>u < ratio\<close>; for a ratio
  that is not a number, the low quantizer.
\<close>

theorem choose_quantizer_selects:
  assumes "column < length (cq_input_alphabets list)"
    and "cq_input_alphabets list ! column = Some A"
    and "get_symbol_index A p = Some idx"
    and "well_1024a (cq_well list) = (w, well')"
    and "column < length (cq_ratio list)" and "cq_ratio list ! column = Some rs"
    and "idx < length rs"
    and "column < length (cq_q list)" and "cq_q list ! column = Some qs"
    and "2 * idx + 1 < length qs"
  shows "\<exists>u. fdiv (of_uint (unat w)) (of_uint UINT32_MAX) = Num u \<and> 0 \<le> u \<and> u \<le> 1 \<and>
           choose_quantizer well_1024a list column p =
             Inr (if dge (Num u) (rs ! idx) then qs ! (2 * idx + 1) else qs ! (2 * idx),
                  list\<lparr>cq_well := well'\<rparr>) \<and>
           dge (Num u) (rs ! idx) =
             (case rs ! idx of Num r \<Rightarrow> \<not> u < r | PInf \<Rightarrow> False | NInf \<Rightarrow> True | NaN \<Rightarrow> False)"
proof -
  from fdiv_draw [of w] obtain u where d: "fdiv (of_uint (unat w)) (of_uint UINT32_MAX) = Num u"
    and u: "0 \<le> u" "u \<le> 1"
    by blast
  have "choose_quantizer well_1024a list column p =
      Inr (if dge (Num u) (rs ! idx) then qs ! (2 * idx + 1) else qs ! (2 * idx),
           list\<lparr>cq_well := well'\<rparr>)"
    using assms by (simp add: choose_quantizer_def d or_undefined_def)
  moreover have "dge (Num u) (rs ! idx) =
      (case rs ! idx of Num r \<Rightarrow> \<not> u < r | PInf \<Rightarrow> False | NInf \<Rightarrow> True | NaN \<Rightarrow> False)"
    by (cases "rs ! idx") (simp_all add: not_less)
  ultimately show ?thesis
    using d u by blast
qed

theorem choose_quantizer_selects_witness:
  "\<exists>u. fdiv (of_uint (unat (0 :: 32 word))) (of_uint UINT32_MAX) = Num u \<and> 0 \<le> u \<and> u \<le> 1 \<and>
     choose_quantizer (ex_well 0) ex_q2 0 0 =
       Inr (if dge (Num u) ([Num (1/4)] ! 0) then [Some ex_lo, Some ex_hi] ! (2 * 0 + 1)
            else [Some ex_lo, Some ex_hi] ! (2 * 0), ex_q2\<lparr>cq_well := ()\<rparr>) \<and>
     dge (Num u) ([Num (1/4)] ! 0) =
       (case [Num (1/4)] ! 0 of Num r \<Rightarrow> \<not> u < r | PInf \<Rightarrow> False | NInf \<Rightarrow> True | NaN \<Rightarrow> False)"
  by (rule choose_quantizer_selects [where A = "[0]"]) (simp_all add: ex_q2_def ex_well_def)

text \<open>
  Claim C5 as stated fails on a store whose ratio is not a number: the draw is not below
  the ratio, so the claim gives the high quantizer, and \<open>choose_quantizer\<close> returns the
  low one. \<open>store_cond_quantizers\<close> builds the store from a low quantizer with such a
  ratio; the generator stores one whenever the allocator gives \<open>low = high\<close>.
\<close>

theorem choose_quantizer_nan_ratio:
  "cond_quantizer_init_column (alloc_conditional_quantizer_list () 1) 0 (alloc_alphabet 1) =
     Some ex_ninit \<and>
   store_cond_quantizers ex_nlo ex_hi ex_ninit 0 0 = Some ex_nan \<and>
   cq_ratio ex_nan ! 0 = Some [NaN] \<and> cq_q ex_nan ! 0 = Some [Some ex_nlo, Some ex_hi] \<and>
   choose_quantizer (ex_well 0) ex_nan 0 0 = Inr (Some ex_nlo, ex_nan) \<and>
   spec_choose (fdiv (of_uint (unat (0 :: 32 word))) (of_uint UINT32_MAX)) NaN
     (Some ex_nlo) (Some ex_hi) = Some ex_hi \<and>
   ex_nlo \<noteq> ex_hi"
proof -
  have "cond_quantizer_init_column (alloc_conditional_quantizer_list () 1) 0 (alloc_alphabet 1) =
      Some ex_ninit"
    by (simp add: cond_quantizer_init_column_def alloc_conditional_quantizer_list_def
        alloc_alphabet_def duplicate_alphabet_def ex_ninit_def numeral_2_eq_2)
  moreover have "store_cond_quantizers ex_nlo ex_hi ex_ninit 0 0 = Some ex_nan"
    by (simp add: store_cond_quantizers_def ex_ninit_def ex_nan_def ex_nlo_def)
  moreover have "choose_quantizer (ex_well 0) ex_nan 0 0 = Inr (Some ex_nlo, ex_nan)"
    by (simp add: choose_quantizer_def ex_nan_def ex_well_def or_undefined_def fdiv_def
        of_uint_def UINT32_MAX_def)
  moreover have "spec_choose (fdiv (of_uint (unat (0 :: 32 word))) (of_uint UINT32_MAX)) NaN
      (Some ex_nlo) (Some ex_hi) = Some ex_hi"
    by (simp add: spec_choose_def fdiv_def of_uint_def UINT32_MAX_def)
  moreover have "ex_nlo \<noteq> ex_hi"
    by (simp add: ex_nlo_def ex_hi_def)
  ultimately show ?thesis
    by (simp add: ex_nan_def)
qed

section \<open>Properties of the codebook file\<close>

lemma foldE_append:
  "foldE f (xs @ ys) s = (case foldE f xs s of None \<Rightarrow> None | Some s' \<Rightarrow> foldE f ys s')"
  by (induction xs arbitrary: s) (auto split: option.splits)

lemma foldE_upt_Suc:
  "a \<le> n \<Longrightarrow> foldE f [a..<Suc n] s = (case foldE f [a..<n] s of None \<Rightarrow> None | Some s' \<Rightarrow> f n s')"
  by (simp add: foldE_append split: option.splits)

lemma copy_loop:
  "foldE (copy_step q) [0..<n] buf = Some buf' \<Longrightarrow>
     length buf' = length buf \<and> n \<le> length buf \<and>
     take n buf' = map (\<lambda>k. of_nat (qz_q q ! k + 33)) [0..<n]"
proof (induction n arbitrary: buf')
  case 0
  then show ?case by simp
next
  case (Suc n)
  from Suc.prems obtain b where b: "foldE (copy_step q) [0..<n] buf = Some b"
    and s: "copy_step q n b = Some buf'"
    by (auto simp: foldE_append split: option.splits)
  from Suc.IH [OF b] have ih: "length b = length buf" "n \<le> length buf"
    "take n b = map (\<lambda>k. of_nat (qz_q q ! k + 33)) [0..<n]"
    by simp_all
  from s have n: "n < length b" and e: "buf' = b[n := of_nat (qz_q q ! n + 33)]"
    by (auto simp: copy_step_def split: Option.bind_splits)
  have "take (Suc n) buf' = take n buf' @ [buf' ! n]"
    using n e by (simp add: take_Suc_conv_app_nth)
  then show ?case
    using ih n e by simp
qed

lemma context_step_out:
  assumes "context_step Q i sz blank j (buf, out) = Some (buf', out')"
  shows "out' = out @ ctx_bytes Q i sz blank j"
  using assms copy_loop [of _ sz buf]
  by (auto simp: context_step_def ctx_bytes_def fwrite_def copy_q_to_line_def
      split: Option.bind_splits option.splits if_splits)

lemma context_loop_out:
  "foldE (context_step Q i sz blank) js (buf, out) = Some (buf', out') \<Longrightarrow>
     out' = out @ concat (map (ctx_bytes Q i sz blank) js)"
proof (induction js arbitrary: buf out)
  case Nil
  then show ?case by simp
next
  case (Cons j js)
  from Cons.prems obtain b l where s: "context_step Q i sz blank j (buf, out) = Some (b, l)"
    and r: "foldE (context_step Q i sz blank) js (b, l) = Some (buf', out')"
    by (auto split: option.splits)
  show ?case
    using Cons.IH [OF r] context_step_out [OF s] by simp
qed

lemma column_line_out:
  assumes "column_line Q i sz blank z (buf, ls) = Some (buf', ls')"
  shows "ls' = ls @ [ctx_line Q i sz blank]"
  using assms context_loop_out [of Q i sz blank "[0..<sz]" buf "[]"]
  by (auto simp: column_line_def context_line_def ctx_line_def split: Option.bind_splits)

lemma column_lines_out:
  assumes "foldE (column_line Q i sz blank) [0..<2] (buf, ls) = Some (buf', ls')"
  shows "ls' = ls @ [ctx_line Q i sz blank, ctx_line Q i sz blank]"
proof -
  have u: "[0..<2] = [0, Suc 0]"
    by (simp add: upt_rec numeral_2_eq_2)
  from assms obtain b l where a: "column_line Q i sz blank 0 (buf, ls) = Some (b, l)"
    and c: "column_line Q i sz blank (Suc 0) (b, l) = Some (buf', ls')"
    unfolding u by (auto split: option.splits)
  show ?thesis
    using column_line_out [OF a] column_line_out [OF c] by simp
qed

lemma all_columns_out:
  "foldE (\<lambda>i st. foldE (column_line Q i sz blank) [0..<2] st) cs (buf, ls) = Some (buf', ls') \<Longrightarrow>
     ls' = ls @ concat (map (\<lambda>i. [ctx_line Q i sz blank, ctx_line Q i sz blank]) cs)"
proof (induction cs arbitrary: buf ls)
  case Nil
  then show ?case by simp
next
  case (Cons c cs)
  from Cons.prems obtain b l where
    a: "foldE (column_line Q c sz blank) [0..<2] (buf, ls) = Some (b, l)"
    and r: "foldE (\<lambda>i st. foldE (column_line Q i sz blank) [0..<2] st) cs (b, l) = Some (buf', ls')"
    by (auto split: option.splits)
  show ?case
    using Cons.IH [OF r] column_lines_out [OF a] by simp
qed

lemma nth_concat_pairs:
  "k < length cs \<Longrightarrow>
     concat (map (\<lambda>i. [f i, f i]) cs) ! (2 * k) = f (cs ! k) \<and>
     concat (map (\<lambda>i. [f i, f i]) cs) ! (2 * k + 1) = f (cs ! k)"
proof (induction cs arbitrary: k)
  case Nil
  then show ?case by simp
next
  case (Cons c cs)
  show ?case
  proof (cases k)
    case 0
    then show ?thesis by simp
  next
    case (Suc m)
    then show ?thesis
      using Cons.IH [of m] Cons.prems by simp
  qed
qed

lemma length_concat_pairs: "length (concat (map (\<lambda>i. [f i, f i]) cs)) = 2 * length cs"
  by (induction cs) simp_all

text \<open>
  Claim C9, amended. In the lines that \<open>write_codebook\<close> writes, line 4 and line 5 both
  encode the quantizer of slot 0 of column 0, the low quantizer, each byte \<open>q[i] + 33\<close>;
  and for every column \<open>c \<ge> 1\<close> the two lines of the column are the same line.
\<close>

theorem codebook_lines_layout:
  assumes "codebook_lines quantizers = Some ls"
  shows "\<exists>q0. get_cond_quantizer_indexed quantizers 0 0 = Some (Some q0) \<and>
           length ls = 5 + 2 * (cq_columns quantizers - 1) \<and>
           ls ! 3 = encode_quantizer q0 \<and> ls ! 4 = encode_quantizer q0 \<and>
           (\<forall>c. 1 \<le> c \<and> c < cq_columns quantizers \<longrightarrow> ls ! (2 * c + 4) = ls ! (2 * c + 3))"
proof -
  define columns where "columns = cq_columns quantizers"
  from assms obtain q0 where q0: "get_cond_quantizer_indexed quantizers 0 0 = Some (Some q0)"
    by (auto simp: codebook_lines_def Let_def split: Option.bind_splits)
  define sz where "sz = length (qz_alphabet q0)"
  define buflen where "buflen = (if columns > sz then columns else sz)"
  define blank :: "byte list" where "blank = replicate buflen 32"
  from assms q0 obtain l1 l2 l3 b1 b2 b3 lsx where
    c: "copy_q_to_line q0 sz b1 = Some b2"
    and st: "foldE (\<lambda>i st. foldE (column_line quantizers i sz blank) [0..<2] st) [1..<columns]
              (b2, [l1, l2, l3, take sz b2, take sz b2]) = Some (b3, lsx)"
    and ls: "ls = lsx"
    by (auto simp: codebook_lines_def Let_def fwrite_def sz_def buflen_def blank_def columns_def
        split: Option.bind_splits if_splits)
  have l4: "take sz b2 = encode_quantizer q0"
    using copy_loop [of q0 sz b1 b2] c
    by (simp add: copy_q_to_line_def encode_quantizer_def sz_def)
  define L where "L = (\<lambda>i. ctx_line quantizers i sz blank)"
  have e: "ls = [l1, l2, l3, encode_quantizer q0, encode_quantizer q0] @
      concat (map (\<lambda>i. [L i, L i]) [1..<columns])"
    using all_columns_out [OF st] by (simp add: ls l4 L_def)
  have len: "length ls = 5 + 2 * (columns - 1)"
    by (simp add: e length_concat_pairs)
  have pair: "ls ! (2 * c + 4) = ls ! (2 * c + 3)" if "1 \<le> c \<and> c < columns" for c
  proof -
    have k: "c - 1 < length [1..<columns]"
      using that by auto
    have i: "2 * c + 3 = 5 + 2 * (c - 1)" "2 * c + 4 = 5 + (2 * (c - 1) + 1)"
      using that by auto
    show ?thesis
      unfolding e i using nth_concat_pairs [OF k, of L]
      by (simp add: nth_append)
  qed
  show ?thesis
    using q0 len pair by (auto simp: e columns_def)
qed

lemma codebook_lines_example:
  "codebook_lines ex_q2 =
     Some [[32, 32, 32], [32, 32, 32], [58, 58, 58], [33, 33], [33, 33],
           [33, 33, 33, 34], [33, 33, 33, 34], [33, 33, 33, 34], [33, 33, 33, 34]]"
  by (simp add: codebook_lines_def ex_q2_def get_cond_quantizer_indexed_def Let_def
      ex_lo_def ex_hi_def fwrite_def ratio_line_def fmul_def copy_q_to_line_def copy_step_def
      column_line_def context_line_def context_step_def get_cond_quantizer_def upt_rec
      numeral_2_eq_2 numeral_3_eq_3)

theorem codebook_lines_layout_witness:
  "\<exists>q0. get_cond_quantizer_indexed ex_q2 0 0 = Some (Some q0) \<and>
     length [[32, 32, 32], [32, 32, 32], [58, 58, 58], [33, 33], [33, 33],
       [33, 33, 33, 34], [33, 33, 33, 34], [33, 33, 33, 34], [33, 33, 33, 34 :: byte]] =
       5 + 2 * (cq_columns ex_q2 - 1) \<and>
     [[32, 32, 32], [32, 32, 32], [58, 58, 58], [33, 33], [33, 33],
       [33, 33, 33, 34], [33, 33, 33, 34], [33, 33, 33, 34], [33, 33, 33, 34]] ! 3 =
       encode_quantizer q0 \<and>
     [[32, 32, 32], [32, 32, 32], [58, 58, 58], [33, 33], [33, 33],
       [33, 33, 33, 34], [33, 33, 33, 34], [33, 33, 33, 34], [33, 33, 33, 34]] ! 4 =
       encode_quantizer q0 \<and>
     [[32, 32, 32], [32, 32, 32], [58, 58, 58], [33, 33], [33, 33],
      [33, 33, 33, 34], [33, 33, 33, 34], [33, 33, 33, 34], [33, 33, 33, 34 :: byte]] ! (2 * 1 + 4) =
     [[32, 32, 32], [32, 32, 32], [58, 58, 58], [33, 33], [33, 33],
      [33, 33, 33, 34], [33, 33, 33, 34], [33, 33, 33, 34], [33, 33, 33, 34]] ! (2 * 1 + 3) \<and>
     [[32, 32, 32], [32, 32, 32], [58, 58, 58], [33, 33], [33, 33],
      [33, 33, 33, 34], [33, 33, 33, 34], [33, 33, 33, 34], [33, 33, 33, 34 :: byte]] ! (2 * 2 + 4) =
     [[32, 32, 32], [32, 32, 32], [58, 58, 58], [33, 33], [33, 33],
      [33, 33, 33, 34], [33, 33, 33, 34], [33, 33, 33, 34], [33, 33, 33, 34]] ! (2 * 2 + 3)"
proof -
  have c: "1 \<le> (1::nat) \<and> 1 < cq_columns ex_q2" "1 \<le> (2::nat) \<and> 2 < cq_columns ex_q2"
    by (simp_all add: ex_q2_def)
  from codebook_lines_layout [OF codebook_lines_example] c show ?thesis
    by blast
qed

text \<open>
  Claim C9 as stated fails on the store of the example: line 5 is the low quantizer of
  column 0 again, not the high one in slot 1, and the lines of column 1 are neither the
  low quantizers of its two contexts nor the high ones.
\<close>

theorem codebook_lines_not_low_high:
  "codebook_lines ex_q2 =
     Some [[32, 32, 32], [32, 32, 32], [58, 58, 58], encode_quantizer ex_lo, encode_quantizer ex_lo,
           [33, 33, 33, 34], [33, 33, 33, 34], [33, 33, 33, 34], [33, 33, 33, 34]] \<and>
   get_cond_quantizer_indexed ex_q2 0 1 = Some (Some ex_hi) \<and>
   encode_quantizer ex_lo \<noteq> encode_quantizer ex_hi \<and>
   get_cond_quantizer_indexed ex_q2 1 0 = Some (Some ex_lo) \<and>
   get_cond_quantizer_indexed ex_q2 1 2 = Some (Some ex_lo) \<and>
   encode_quantizer ex_lo @ encode_quantizer ex_lo \<noteq> [33, 33, 33, 34] \<and>
   get_cond_quantizer_indexed ex_q2 1 1 = Some (Some ex_hi) \<and>
   get_cond_quantizer_indexed ex_q2 1 3 = Some (Some ex_hi) \<and>
   encode_quantizer ex_hi @ encode_quantizer ex_hi \<noteq> [33, 33, 33, 34]"
proof -
  have "encode_quantizer ex_lo = [33, 33]" "encode_quantizer ex_hi = [33, 34]"
    by (simp_all add: encode_quantizer_def ex_lo_def ex_hi_def upt_rec numeral_2_eq_2)
  moreover have "get_cond_quantizer_indexed ex_q2 0 1 = Some (Some ex_hi)"
    "get_cond_quantizer_indexed ex_q2 1 0 = Some (Some ex_lo)"
    "get_cond_quantizer_indexed ex_q2 1 2 = Some (Some ex_lo)"
    "get_cond_quantizer_indexed ex_q2 1 1 = Some (Some ex_hi)"
    "get_cond_quantizer_indexed ex_q2 1 3 = Some (Some ex_hi)"
    by (simp_all add: get_cond_quantizer_indexed_def ex_q2_def)
  ultimately show ?thesis
    using codebook_lines_example by simp
qed

section \<open>Properties of the propagation of P(Q | X)\<close>

lemma upt_2: "[0..<2] = [0, Suc 0]"
  by (simp add: upt_rec numeral_2_eq_2)

lemma replicate_numerals:
  "replicate 2 x = [x, x]" "replicate 3 x = [x, x, x]" "replicate 4 x = [x, x, x, x]"
  "replicate 5 x = [x, x, x, x, x]"
  by (simp_all add: numeral_eq_Suc)

lemma ex_qpmf2_run:
  "compute_qpmf_list (alloc_pmf_list 2 [0, 1]) ex_in_pmfs 2 ex_prev_qpmf [0, 1] [0, 1] ex_q2i =
     Some ex_qpmf2"
  by (simp add: compute_qpmf_list_def qpmf_context_step_def qpmf_weight_loop_def
      renormalize_row_def renormalize_pmf_def ex_counts_def ex_half_def ex_in_pmfs_def
      ex_lo_def ex_hi_def ex_q2i_def ex_prev_qpmf_def alloc_pmf_def ex_qpmf2_def
      alloc_pmf_list_def pmf_list_add_def pmf_list_mul_def upt_2 nth_chk_def idx_sub_def
      get_cond_quantizer_indexed_def marginal_pmf_def get_cond_pmf_def cond_pmf_index_def
      get_probability_def probability_def dsum_def replicate_numerals Let_def)

text \<open>
  Claim C3 says that \<open>compute_qpmf_list\<close> sums, over the previous contexts \<open>j\<close>, the
  contribution of the quantizers of \<open>j\<close> times the weight of \<open>j\<close>, and renormalises the
  row. The code does not reset \<open>p_q_xq\<close> for a new \<open>j\<close> and multiplies the running total
  by it inside the loop: at column 2 of the example its row for the symbol 1 is
  (17/98, 81/98), the sum of the claim is (1/4, 3/4).
\<close>

theorem compute_qpmf_list_differs:
  "compute_qpmf_list (alloc_pmf_list 2 [0, 1]) ex_in_pmfs 2 ex_prev_qpmf [0, 1] [0, 1] ex_q2i =
     Some [\<lparr>pmf_alphabet = [0, 1], pmf_pmf = [Num 1, Num 0], pmf_ready = True\<rparr>,
           \<lparr>pmf_alphabet = [0, 1], pmf_pmf = [Num (17/98), Num (81/98)], pmf_ready = True\<rparr>] \<and>
   spec_qpmf_row [(ex_lo, ex_hi), (ex_lo, ex_hi)] ex_prev_qpmf [ex_counts 1, ex_counts 1]
     ex_half [0, 1] 1 = [Num (1/4), Num (3/4)]"
proof
  show "compute_qpmf_list (alloc_pmf_list 2 [0, 1]) ex_in_pmfs 2 ex_prev_qpmf [0, 1] [0, 1] ex_q2i =
     Some [\<lparr>pmf_alphabet = [0, 1], pmf_pmf = [Num 1, Num 0], pmf_ready = True\<rparr>,
           \<lparr>pmf_alphabet = [0, 1], pmf_pmf = [Num (17/98), Num (81/98)], pmf_ready = True\<rparr>]"
    using ex_qpmf2_run by (simp add: ex_qpmf2_def)
  show "spec_qpmf_row [(ex_lo, ex_hi), (ex_lo, ex_hi)] ex_prev_qpmf [ex_counts 1, ex_counts 1]
     ex_half [0, 1] 1 = [Num (1/4), Num (3/4)]"
    by (simp add: spec_qpmf_row_def spec_weight_def spec_contribution_def ex_counts_def
        ex_half_def ex_lo_def ex_hi_def ex_prev_qpmf_def upt_2 probability_def dsum_def Let_def)
qed

section \<open>Properties of the statistics\<close>

text \<open>
  Total correctness of a loop: an invariant of the processed prefix that every step
  keeps, together with a result of the step.
\<close>

lemma foldE_total:
  assumes "P [] s"
    and "\<And>pre x post t. xs = pre @ x # post \<Longrightarrow> P pre t \<Longrightarrow> \<exists>t'. f x t = Some t' \<and> P (pre @ [x]) t'"
  shows "\<exists>s'. foldE f xs s = Some s' \<and> P xs s'"
proof -
  have "P pre s \<Longrightarrow> xs = pre @ ys \<Longrightarrow> \<exists>s'. foldE f ys s = Some s' \<and> P (pre @ ys) s'" for pre ys s
  proof (induction ys arbitrary: pre s)
    case Nil
    then show ?case by simp
  next
    case (Cons y ys)
    from assms(2) [of pre y ys s] Cons.prems obtain t where
      t: "f y s = Some t" "P (pre @ [y]) t"
      by blast
    from Cons.IH [of "pre @ [y]" t] t Cons.prems show ?case
      by simp
  qed
  from this [of "[]" s xs] assms(1) show ?thesis
    by simp
qed

text \<open>Partial correctness of a loop, when its result is given.\<close>

lemma foldE_partial:
  assumes "foldE f xs s = Some s'" and "P [] s"
    and "\<And>pre x post t t'. xs = pre @ x # post \<Longrightarrow> P pre t \<Longrightarrow> f x t = Some t' \<Longrightarrow> P (pre @ [x]) t'"
  shows "P xs s'"
proof -
  have "P pre s \<Longrightarrow> xs = pre @ ys \<Longrightarrow> foldE f ys s = Some s' \<Longrightarrow> P (pre @ ys) s'" for pre ys s
  proof (induction ys arbitrary: pre s)
    case Nil
    then show ?case by simp
  next
    case (Cons y ys)
    from Cons.prems(3) obtain t where t: "f y s = Some t" "foldE f ys t = Some s'"
      by (auto split: option.splits)
    have "P (pre @ [y]) t"
      using assms(3) [of pre y ys s t] Cons.prems t by simp
    from Cons.IH [OF this _ t(2)] Cons.prems(2) show ?case
      by simp
  qed
  from this [of "[]" s xs] assms(1,2) show ?thesis
    by simp
qed

lemma cond_index_inj:
  fixes n s s' c c' :: nat
  assumes "s < n" "s' < n" "1 \<le> c" "1 \<le> c'"
    and "1 + (c - 1) * n + s = 1 + (c' - 1) * n + s'"
  shows "c = c' \<and> s = s'"
proof -
  from assms(5) have e: "(c - 1) * n + s = (c' - 1) * n + s'"
    by simp
  have "((c - 1) * n + s) div n = c - 1" "((c - 1) * n + s) mod n = s"
    using assms(1) by simp_all
  moreover have "((c' - 1) * n + s') div n = c' - 1" "((c' - 1) * n + s') mod n = s'"
    using assms(2) by simp_all
  ultimately have "c - 1 = c' - 1" "s = s'"
    using e by simp_all
  then show ?thesis
    using assms(3,4) by simp
qed

lemma cond_index_less:
  fixes n s c columns :: nat
  assumes "s < n" "1 \<le> c" "c < columns"
  shows "1 + (c - 1) * n + s < 1 + n * (columns - 1)"
proof -
  have "(c - 1) * n + s < (c - 1) * n + n"
    using assms(1) by simp
  also have "\<dots> = c * n"
    using assms(2) by (cases c) simp_all
  also have "\<dots> \<le> (columns - 1) * n"
    using assms(3) by (intro mult_le_mono1) simp
  finally show ?thesis
    by (simp add: mult.commute)
qed

lemma increment_column0:
  assumes "counts_inv n columns P cnt0 cnt" and "k < n"
  shows "\<exists>P'. cond_pmf_increment P 0 0 k = Some P' \<and>
           counts_inv n columns P' (\<lambda>k'. cnt0 k' + (if k' = k then 1 else 0)) cnt"
proof -
  define p where "p = cp_pmfs P ! 0"
  define p' where "p' = p\<lparr>pmf_pmf := (pmf_pmf p)[k := dadd (pmf_pmf p ! k) (Num 1)]\<rparr>"
  define P' where "P' = P\<lparr>cp_pmfs := (cp_pmfs P)[0 := p']\<rparr>"
  have len: "0 < length (cp_pmfs P)" "length (pmf_pmf p) = n" "\<not> pmf_ready p"
    using assms(1) by (simp_all add: counts_inv_def p_def)
  have r: "cond_pmf_increment P 0 0 k = Some P'"
    using len assms(2)
    by (simp add: cond_pmf_increment_def get_cond_pmf_def cond_pmf_index_def pmf_increment_def
        nth_chk_def p_def p'_def P'_def)
  have v: "pmf_pmf p ! k = Num (real (cnt0 k))"
    using assms by (simp add: counts_inv_def p_def)
  have "counts_inv n columns P' (\<lambda>k'. cnt0 k' + (if k' = k then 1 else 0)) cnt"
    unfolding counts_inv_def
  proof (intro conjI allI impI)
    show "length (cp_alphabet P') = n"
      using assms(1) by (simp add: counts_inv_def P'_def)
    show "length (cp_pmfs P') = 1 + n * (columns - 1)"
      using assms(1) by (simp add: counts_inv_def P'_def)
    show "length (pmf_pmf (cp_pmfs P' ! i)) = n" if "i < length (cp_pmfs P')" for i
      using that assms(1) len by (cases "i = 0") (simp_all add: counts_inv_def P'_def p'_def)
    show "\<not> pmf_ready (cp_pmfs P' ! i)" if "i < length (cp_pmfs P')" for i
      using that assms(1) len by (cases "i = 0") (simp_all add: counts_inv_def P'_def p'_def)
    show "pmf_pmf (cp_pmfs P' ! 0) ! k' = Num (real (cnt0 k' + (if k' = k then 1 else 0)))"
      if "k' < n" for k'
    proof (cases "k' = k")
      case True
      then show ?thesis
        using len assms(2) v by (simp add: P'_def p'_def)
    next
      case False
      then show ?thesis
        using len that assms(1) by (simp add: P'_def p'_def counts_inv_def p_def)
    qed
    show "pmf_pmf (cp_pmfs P' ! (1 + (c - 1) * n + s)) ! k' = Num (real (cnt c s k'))"
      if "1 \<le> c \<and> c < columns \<and> s < n \<and> k' < n" for c s k'
      using that assms(1) by (simp add: P'_def counts_inv_def)
  qed
  with r show ?thesis by blast
qed

lemma increment_column:
  assumes "counts_inv n columns P cnt0 cnt" and "k < n" and "s < n" and "1 \<le> c" and "c < columns"
  shows "\<exists>P'. cond_pmf_increment P c s k = Some P' \<and>
           counts_inv n columns P' cnt0
             (\<lambda>c' s' k'. cnt c' s' k' + (if c' = c \<and> s' = s \<and> k' = k then 1 else 0))"
proof -
  define i where "i = 1 + (c - 1) * n + s"
  define p where "p = cp_pmfs P ! i"
  define p' where "p' = p\<lparr>pmf_pmf := (pmf_pmf p)[k := dadd (pmf_pmf p ! k) (Num 1)]\<rparr>"
  define P' where "P' = P\<lparr>cp_pmfs := (cp_pmfs P)[i := p']\<rparr>"
  have n: "length (cp_alphabet P) = n"
    using assms(1) by (simp add: counts_inv_def)
  have i: "i < length (cp_pmfs P)"
    using assms cond_index_less [of s n c columns] by (simp add: counts_inv_def i_def)
  then have len: "length (pmf_pmf p) = n" "\<not> pmf_ready p"
    using assms(1) by (simp_all add: counts_inv_def p_def)
  have ci: "cond_pmf_index P c s = i"
    using assms(4) n by (simp add: cond_pmf_index_def i_def)
  have r: "cond_pmf_increment P c s k = Some P'"
    using len i assms(2)
    by (simp add: cond_pmf_increment_def get_cond_pmf_def ci pmf_increment_def
        nth_chk_def p_def p'_def P'_def)
  have v: "pmf_pmf p ! k = Num (real (cnt c s k))"
    using assms by (simp add: counts_inv_def p_def i_def)
  have "counts_inv n columns P' cnt0
      (\<lambda>c' s' k'. cnt c' s' k' + (if c' = c \<and> s' = s \<and> k' = k then 1 else 0))"
    unfolding counts_inv_def
  proof (intro conjI allI impI)
    show "length (cp_alphabet P') = n"
      using n by (simp add: P'_def)
    show "length (cp_pmfs P') = 1 + n * (columns - 1)"
      using assms(1) by (simp add: counts_inv_def P'_def)
    show "length (pmf_pmf (cp_pmfs P' ! j)) = n" if "j < length (cp_pmfs P')" for j
      using that assms(1) len by (cases "j = i") (simp_all add: counts_inv_def P'_def p'_def)
    show "\<not> pmf_ready (cp_pmfs P' ! j)" if "j < length (cp_pmfs P')" for j
      using that assms(1) len by (cases "j = i") (simp_all add: counts_inv_def P'_def p'_def)
    show "pmf_pmf (cp_pmfs P' ! 0) ! k' = Num (real (cnt0 k'))" if "k' < n" for k'
      using that assms(1) by (simp add: P'_def counts_inv_def i_def)
    show "pmf_pmf (cp_pmfs P' ! (1 + (c' - 1) * n + s')) ! k' =
        Num (real (cnt c' s' k' + (if c' = c \<and> s' = s \<and> k' = k then 1 else 0)))"
      if h: "1 \<le> c' \<and> c' < columns \<and> s' < n \<and> k' < n" for c' s' k'
    proof (cases "c' = c \<and> s' = s")
      case True
      then have e: "1 + (c' - 1) * n + s' = i"
        by (simp add: i_def)
      have "pmf_pmf (cp_pmfs P' ! i) ! k' =
          Num (real (cnt c s k' + (if k' = k then 1 else 0)))"
      proof (cases "k' = k")
        case True
        then show ?thesis
          using i len assms(2) v by (simp add: P'_def p'_def)
      next
        case False
        have "pmf_pmf (cp_pmfs P ! i) ! k' = Num (real (cnt c s k'))"
          using assms h unfolding counts_inv_def i_def by blast
        then show ?thesis
          using False i len h by (simp add: P'_def p'_def p_def)
      qed
      then show ?thesis
        unfolding e using True by simp
    next
      case False
      then have "1 + (c' - 1) * n + s' \<noteq> i"
        using cond_index_inj [of s' n s c' c] h assms(3,4) unfolding i_def by blast
      then show ?thesis
        using False h assms(1) by (auto simp: P'_def counts_inv_def)
    qed
  qed
  with r show ?thesis by blast
qed

lemma counts_inv_cong:
  assumes "counts_inv n columns P cnt0 cnt"
    and "\<And>k. k < n \<Longrightarrow> cnt0 k = cnt0' k"
    and "\<And>c s k. 1 \<le> c \<Longrightarrow> c < columns \<Longrightarrow> s < n \<Longrightarrow> k < n \<Longrightarrow> cnt c s k = cnt' c s k"
  shows "counts_inv n columns P cnt0' cnt'"
  using assms unfolding counts_inv_def by auto

lemma upt_split:
  assumes "[a..<b] = pre @ x # post"
  shows "pre = [a..<x] \<and> a \<le> x \<and> x < b"
proof -
  have l: "length pre < b - a"
    using arg_cong [OF assms, of length] by simp
  have "[a..<b] ! length pre = x"
    by (simp add: assms)
  then have x: "x = a + length pre"
    using l by simp
  have "take (length pre) [a..<b] = pre"
    by (simp add: assms)
  then have "pre = [a..<x]"
    using l x by (simp add: take_upt)
  then show ?thesis
    using l x by simp
qed

lemma count_line_total:
  assumes "counts_inv n columns P cnt0 cnt" and "1 \<le> columns" and "columns \<le> length l"
    and "\<forall>c<columns. l ! c < n"
  shows "\<exists>P'. count_line columns l P = Some P' \<and>
           counts_inv n columns P' (\<lambda>k. cnt0 k + (if l ! 0 = k then 1 else 0))
             (\<lambda>c s k. cnt c s k + (if l ! (c - 1) = s \<and> l ! c = k then 1 else 0))"
proof -
  have l0: "0 < length l" "l ! 0 < n"
    using assms(2,3,4) by auto
  from increment_column0 [OF assms(1) l0(2)] obtain P1 where
    p1: "cond_pmf_increment P 0 0 (l ! 0) = Some P1"
    and i1: "counts_inv n columns P1 (\<lambda>k'. cnt0 k' + (if k' = l ! 0 then 1 else 0)) cnt"
    by blast
  define I where "I = (\<lambda>pre t. counts_inv n columns t (\<lambda>k. cnt0 k + (if l ! 0 = k then 1 else 0))
      (\<lambda>c s k. cnt c s k + (if c \<in> set pre \<and> l ! (c - 1) = s \<and> l ! c = k then 1 else 0)))"
  have "\<exists>P'. foldE (count_column l) [1..<columns] P1 = Some P' \<and> I [1..<columns] P'"
  proof (rule foldE_total)
    show "I [] P1"
      unfolding I_def by (rule counts_inv_cong [OF i1]) auto
  next
    fix pre x post t
    assume xs: "[1..<columns] = pre @ x # post" and t: "I pre t"
    from upt_split [OF xs] have x: "pre = [1..<x]" "1 \<le> x" "x < columns"
      by simp_all
    have r: "x - 1 < length l" "x < length l" "l ! (x - 1) < n" "l ! x < n"
      using x assms(3,4) by auto
    from increment_column [OF t [unfolded I_def] r(4) r(3) x(2) x(3)] obtain t' where
      t': "cond_pmf_increment t x (l ! (x - 1)) (l ! x) = Some t'"
      and i': "counts_inv n columns t' (\<lambda>k. cnt0 k + (if l ! 0 = k then 1 else 0))
        (\<lambda>c' s' k'. cnt c' s' k' + (if c' \<in> set pre \<and> l ! (c' - 1) = s' \<and> l ! c' = k' then 1 else 0) +
           (if c' = x \<and> s' = l ! (x - 1) \<and> k' = l ! x then 1 else 0))"
      by blast
    have "count_column l x t = Some t'"
      using r t' by (simp add: count_column_def nth_chk_def)
    moreover have "I (pre @ [x]) t'"
      unfolding I_def by (rule counts_inv_cong [OF i']) (auto simp: x(1))
    ultimately show "\<exists>t'. count_column l x t = Some t' \<and> I (pre @ [x]) t'"
      by blast
  qed
  then obtain P' where f: "foldE (count_column l) [1..<columns] P1 = Some P'"
    and i: "I [1..<columns] P'"
    by blast
  have "count_line columns l P = Some P'"
    using l0 p1 f by (simp add: count_line_def nth_chk_def)
  moreover have "counts_inv n columns P' (\<lambda>k. cnt0 k + (if l ! 0 = k then 1 else 0))
      (\<lambda>c s k. cnt c s k + (if l ! (c - 1) = s \<and> l ! c = k then 1 else 0))"
    by (rule counts_inv_cong [OF i [unfolded I_def]]) auto
  ultimately show ?thesis
    by blast
qed

lemma count_lines_total:
  assumes "counts_inv n columns P cnt0 cnt" and "1 \<le> columns"
    and "\<forall>l\<in>set ls. columns \<le> length l \<and> (\<forall>c<columns. l ! c < n)"
  shows "\<exists>P'. foldE (count_line columns) ls P = Some P' \<and>
           counts_inv n columns P' (\<lambda>k. cnt0 k + length (filter (\<lambda>l. l ! 0 = k) ls))
             (\<lambda>c s k. cnt c s k + length (filter (\<lambda>l. l ! (c - 1) = s \<and> l ! c = k) ls))"
proof (rule foldE_total)
  show "counts_inv n columns P (\<lambda>k. cnt0 k + length (filter (\<lambda>l. l ! 0 = k) []))
      (\<lambda>c s k. cnt c s k + length (filter (\<lambda>l. l ! (c - 1) = s \<and> l ! c = k) []))"
    using assms(1) by simp
next
  fix pre l post t
  assume xs: "ls = pre @ l # post"
    and t: "counts_inv n columns t (\<lambda>k. cnt0 k + length (filter (\<lambda>l. l ! 0 = k) pre))
      (\<lambda>c s k. cnt c s k + length (filter (\<lambda>l. l ! (c - 1) = s \<and> l ! c = k) pre))"
  have l: "columns \<le> length l" "\<forall>c<columns. l ! c < n"
    using assms(3) xs by simp_all
  from count_line_total [OF t assms(2) l] obtain t' where
    r: "count_line columns l t = Some t'"
    and i: "counts_inv n columns t'
        (\<lambda>k. cnt0 k + length (filter (\<lambda>l. l ! 0 = k) pre) + (if l ! 0 = k then 1 else 0))
        (\<lambda>c s k. cnt c s k + length (filter (\<lambda>l. l ! (c - 1) = s \<and> l ! c = k) pre) +
           (if l ! (c - 1) = s \<and> l ! c = k then 1 else 0))"
    by blast
  have "counts_inv n columns t' (\<lambda>k. cnt0 k + length (filter (\<lambda>l. l ! 0 = k) (pre @ [l])))
      (\<lambda>c s k. cnt c s k + length (filter (\<lambda>l. l ! (c - 1) = s \<and> l ! c = k) (pre @ [l])))"
    by (rule counts_inv_cong [OF i]) auto
  with r show "\<exists>t'. count_line columns l t = Some t' \<and>
      counts_inv n columns t' (\<lambda>k. cnt0 k + length (filter (\<lambda>l. l ! 0 = k) (pre @ [l])))
        (\<lambda>c s k. cnt c s k + length (filter (\<lambda>l. l ! (c - 1) = s \<and> l ! c = k) (pre @ [l])))"
    by blast
qed

lemma count_blocks_total:
  assumes "counts_inv n columns P (\<lambda>k. 0) (\<lambda>c s k. 0)" and "1 \<le> columns"
    and "\<forall>l\<in>set (concat blocks). columns \<le> length l \<and> (\<forall>c<columns. l ! c < n)"
  shows "\<exists>P'. foldE (\<lambda>block pmf_list. foldE (count_line columns) block pmf_list) blocks P = Some P' \<and>
           counts_inv n columns P' (\<lambda>k. length (filter (\<lambda>l. l ! 0 = k) (concat blocks)))
             (\<lambda>c s k. length (filter (\<lambda>l. l ! (c - 1) = s \<and> l ! c = k) (concat blocks)))"
proof (rule foldE_total)
  show "counts_inv n columns P (\<lambda>k. length (filter (\<lambda>l. l ! 0 = k) (concat [])))
      (\<lambda>c s k. length (filter (\<lambda>l. l ! (c - 1) = s \<and> l ! c = k) (concat [])))"
    using assms(1) by simp
next
  fix pre b post t
  assume xs: "blocks = pre @ b # post"
    and t: "counts_inv n columns t (\<lambda>k. length (filter (\<lambda>l. l ! 0 = k) (concat pre)))
      (\<lambda>c s k. length (filter (\<lambda>l. l ! (c - 1) = s \<and> l ! c = k) (concat pre)))"
  have l: "\<forall>l\<in>set b. columns \<le> length l \<and> (\<forall>c<columns. l ! c < n)"
    using assms(3) xs by simp
  from count_lines_total [OF t assms(2) l] obtain t' where
    r: "foldE (count_line columns) b t = Some t'"
    and i: "counts_inv n columns t'
        (\<lambda>k. length (filter (\<lambda>l. l ! 0 = k) (concat pre)) + length (filter (\<lambda>l. l ! 0 = k) b))
        (\<lambda>c s k. length (filter (\<lambda>l. l ! (c - 1) = s \<and> l ! c = k) (concat pre)) +
           length (filter (\<lambda>l. l ! (c - 1) = s \<and> l ! c = k) b))"
    by blast
  have "counts_inv n columns t' (\<lambda>k. length (filter (\<lambda>l. l ! 0 = k) (concat (pre @ [b]))))
      (\<lambda>c s k. length (filter (\<lambda>l. l ! (c - 1) = s \<and> l ! c = k) (concat (pre @ [b]))))"
    by (rule counts_inv_cong [OF i]) auto
  with r show "\<exists>t'. foldE (count_line columns) b t = Some t' \<and>
      counts_inv n columns t' (\<lambda>k. length (filter (\<lambda>l. l ! 0 = k) (concat (pre @ [b]))))
        (\<lambda>c s k. length (filter (\<lambda>l. l ! (c - 1) = s \<and> l ! c = k) (concat (pre @ [b]))))"
    by blast
qed

lemma alloc_counts_inv:
  assumes "1 \<le> columns" and "columns < 2 ^ 32" and "1 + length A * (columns - 1) < 2 ^ 32"
  shows "counts_inv (length A) columns (alloc_conditional_pmf_list A columns) (\<lambda>k. 0) (\<lambda>c s k. 0)"
proof -
  define N where "N = 1 + length A * (columns - 1)"
  have "(columns + 2 ^ 32 - 1) mod 2 ^ 32 = columns - 1"
  proof -
    have "columns + 2 ^ 32 - 1 = (columns - 1) + 1 * 2 ^ 32"
      using assms(1) by simp
    then have "(columns + 2 ^ 32 - 1) mod 2 ^ 32 = (columns - 1) mod 2 ^ 32"
      by (simp only: mod_mult_self1)
    then show ?thesis
      using assms(2) by simp
  qed
  then have "(1 + length A * ((columns + 2 ^ 32 - 1) mod 2 ^ 32)) mod 2 ^ 32 = N"
    using assms(3) by (simp add: N_def)
  then have e: "alloc_conditional_pmf_list A columns =
      \<lparr>cp_columns = columns, cp_alphabet = A, cp_pmfs = replicate N (alloc_pmf A),
       cp_marginal_pmfs = None\<rparr>"
    by (simp only: alloc_conditional_pmf_list_def)
  have c: "1 + (c - 1) * length A + s < N" if "1 \<le> c" "c < columns" "s < length A" for c s
    unfolding N_def using that by (intro cond_index_less)
  have N: "N = 1 + length A * (columns - 1)" "0 < N"
    by (simp_all add: N_def)
  show ?thesis
    unfolding counts_inv_def e
  proof (intro conjI allI impI)
    fix c s k
    assume "1 \<le> c \<and> c < columns \<and> s < length A \<and> k < length A"
    then show "pmf_pmf (cp_pmfs \<lparr>cp_columns = columns, cp_alphabet = A,
          cp_pmfs = replicate N (alloc_pmf A), cp_marginal_pmfs = None\<rparr> !
        (1 + (c - 1) * length A + s)) ! k = Num (real 0)"
      using c [of c s] by (simp add: alloc_pmf_def)
  next
    show "length (cp_pmfs \<lparr>cp_columns = columns, cp_alphabet = A,
          cp_pmfs = replicate N (alloc_pmf A), cp_marginal_pmfs = None\<rparr>) =
        1 + length A * (columns - 1)"
      by (simp add: N)
  qed (simp_all add: N(2) alloc_pmf_def)
qed

lemma dmul_one [simp]: "dmul (Num 1) x = x"
  by (cases x) simp_all

lemma dadd_zero_right: "dadd x (Num 0) = x"
  by (cases x) simp_all

lemma dsum_Nil [simp]: "dsum [] = Num 0"
  by (simp add: dsum_def)

lemma dsum_snoc [simp]: "dsum (xs @ [v]) = dadd (dsum xs) v"
  by (simp add: dsum_def)

lemma dsum_replicate_zero [simp]: "dsum (replicate n (Num 0)) = Num 0"
proof -
  have "foldl dadd (Num 0) (replicate n (Num 0)) = Num 0"
    by (induction n) simp_all
  then show ?thesis
    by (simp add: dsum_def)
qed

lemma probability_alloc [simp]: "k < length A \<Longrightarrow> probability (alloc_pmf A) k = Num 0"
  by (simp add: probability_def alloc_pmf_def)

lemma length_alloc_pmf [simp]: "length (pmf_pmf (alloc_pmf A)) = length A"
  by (simp add: alloc_pmf_def)

lemma get_cond_pmf_counts:
  assumes "counts_inv n columns P cnt0 cnt" and "1 \<le> c" and "c < columns" and "s < n"
  shows "get_cond_pmf P c s = Some (cp_pmfs P ! cond_pmf_index P c s)"
    and "length (pmf_pmf (cp_pmfs P ! cond_pmf_index P c s)) = n"
    and "cond_pmf_index P c s = 1 + (c - 1) * n + s"
proof -
  have n: "length (cp_alphabet P) = n"
    using assms(1) by (simp add: counts_inv_def)
  show i: "cond_pmf_index P c s = 1 + (c - 1) * n + s"
    using assms(2) n by (simp add: cond_pmf_index_def)
  have l: "cond_pmf_index P c s < length (cp_pmfs P)"
    using assms cond_index_less [of s n c columns] unfolding i by (simp add: counts_inv_def)
  then show "get_cond_pmf P c s = Some (cp_pmfs P ! cond_pmf_index P c s)"
    by (simp add: get_cond_pmf_def)
  show "length (pmf_pmf (cp_pmfs P ! cond_pmf_index P c s)) = n"
    using l assms(1) by (simp add: counts_inv_def)
qed

lemma marginal_column_total:
  assumes "counts_inv n columns P cnt0 cnt"
    and "length margs = columns" and "1 \<le> x" and "x < columns"
    and "length (pmf_pmf (margs ! (x - 1))) = n"
    and "margs ! x = alloc_pmf A" and "length A = n"
  shows "\<exists>margs'. foldE (marginal_step P x) [0..<n] margs = Some margs' \<and>
           length margs' = columns \<and> (\<forall>c. c \<noteq> x \<longrightarrow> margs' ! c = margs ! c) \<and>
           length (pmf_pmf (margs' ! x)) = n \<and>
           (\<forall>k<n. probability (margs' ! x) k =
              dsum (map (\<lambda>s. dmul (probability (margs ! (x - 1)) s)
                                (probability (cp_pmfs P ! cond_pmf_index P x s) k)) [0..<n]))"
proof -
  define I where "I = (\<lambda>pre t. length t = columns \<and> (\<forall>c. c \<noteq> x \<longrightarrow> t ! c = margs ! c) \<and>
      length (pmf_pmf (t ! x)) = n \<and>
      (\<forall>k<n. probability (t ! x) k =
         dsum (map (\<lambda>s. dmul (probability (margs ! (x - 1)) s)
                           (probability (cp_pmfs P ! cond_pmf_index P x s) k)) pre)))"
  have "\<exists>margs'. foldE (marginal_step P x) [0..<n] margs = Some margs' \<and> I [0..<n] margs'"
  proof (rule foldE_total)
    show "I [] margs"
      using assms by (simp add: I_def)
  next
    fix pre j post t
    assume xs: "[0..<n] = pre @ j # post" and t: "I pre t"
    from upt_split [OF xs] have j: "pre = [0..<j]" "j < n"
      by simp_all
    define m where "m = t ! x"
    define cp where "cp = cp_pmfs P ! cond_pmf_index P x j"
    define w where "w = probability (margs ! (x - 1)) j"
    define m' where "m' = m\<lparr>pmf_pmf := map (\<lambda>i. dadd (dmul (Num 1) (probability m i))
        (dmul w (probability cp i))) [0..<length (pmf_pmf m)], pmf_ready := True\<rparr>"
    have tl: "length t = columns" and tm: "length (pmf_pmf m) = n"
      and tp: "t ! (x - 1) = margs ! (x - 1)"
      using t assms(3) by (simp_all add: I_def m_def)
    have c: "get_cond_pmf P x j = Some cp" "length (pmf_pmf cp) = n"
      using get_cond_pmf_counts [OF assms(1,3,4) j(2)] by (simp_all add: cp_def)
    have s: "marginal_step P x j t = Some (t[x := m'])"
      using tl tm tp c assms(3,4,5) j(2)
      by (simp add: marginal_step_def nth_chk_def get_probability_def combine_pmfs_def
          m_def [symmetric] w_def m'_def)
    have "I (pre @ [j]) (t[x := m'])"
      unfolding I_def
    proof (intro conjI allI impI)
      show "length (t[x := m']) = columns"
        using tl by simp
      show "t[x := m'] ! c = margs ! c" if "c \<noteq> x" for c
        using that t by (simp add: I_def)
      show "length (pmf_pmf (t[x := m'] ! x)) = n"
        using tl assms(4) tm by (simp add: m'_def)
      show "probability (t[x := m'] ! x) k =
          dsum (map (\<lambda>s. dmul (probability (margs ! (x - 1)) s)
                            (probability (cp_pmfs P ! cond_pmf_index P x s) k)) (pre @ [j]))"
        if "k < n" for k
      proof -
        have "probability (t[x := m'] ! x) k = pmf_pmf m' ! k"
          using tl assms(4) by (simp add: probability_def m'_def)
        also have "\<dots> = dadd (probability m k) (dmul w (probability cp k))"
          using that tm by (simp add: m'_def)
        also have "probability m k =
            dsum (map (\<lambda>s. dmul (probability (margs ! (x - 1)) s)
                              (probability (cp_pmfs P ! cond_pmf_index P x s) k)) pre)"
          using t that by (simp add: I_def m_def)
        finally show ?thesis
          by (simp add: w_def cp_def)
      qed
    qed
    with s show "\<exists>t'. marginal_step P x j t = Some t' \<and> I (pre @ [j]) t'"
      by blast
  qed
  then show ?thesis
    unfolding I_def by blast
qed

lemma marginal_columns_total:
  assumes "counts_inv n columns P cnt0 cnt"
    and "length margs = columns" and "length (pmf_pmf (margs ! 0)) = n"
    and "\<forall>c. 1 \<le> c \<and> c < columns \<longrightarrow> margs ! c = alloc_pmf A" and "length A = n"
  shows "\<exists>margs'. foldE (\<lambda>column margs. foldE (marginal_step P column) [0..<n] margs)
             [1..<columns] margs = Some margs' \<and>
           length margs' = columns \<and> margs' ! 0 = margs ! 0 \<and>
           (\<forall>c k. 1 \<le> c \<and> c < columns \<and> k < n \<longrightarrow> probability (margs' ! c) k =
              dsum (map (\<lambda>s. dmul (probability (margs' ! (c - 1)) s)
                                (probability (cp_pmfs P ! cond_pmf_index P c s) k)) [0..<n]))"
proof -
  define J where "J = (\<lambda>pre t. length t = columns \<and> t ! 0 = margs ! 0 \<and>
      length (pmf_pmf (t ! 0)) = n \<and>
      (\<forall>c\<in>set pre. length (pmf_pmf (t ! c)) = n) \<and>
      (\<forall>c. 1 \<le> c \<and> c < columns \<and> c \<notin> set pre \<longrightarrow> t ! c = alloc_pmf A) \<and>
      (\<forall>c\<in>set pre. \<forall>k<n. probability (t ! c) k =
         dsum (map (\<lambda>s. dmul (probability (t ! (c - 1)) s)
                           (probability (cp_pmfs P ! cond_pmf_index P c s) k)) [0..<n])))"
  have "\<exists>margs'. foldE (\<lambda>column margs. foldE (marginal_step P column) [0..<n] margs)
      [1..<columns] margs = Some margs' \<and> J [1..<columns] margs'"
  proof (rule foldE_total)
    show "J [] margs"
      using assms by (simp add: J_def)
  next
    fix pre x post t
    assume xs: "[1..<columns] = pre @ x # post" and t: "J pre t"
    from upt_split [OF xs] have x: "pre = [1..<x]" "1 \<le> x" "x < columns"
      by simp_all
    have tl: "length t = columns"
      using t by (simp add: J_def)
    have prev: "length (pmf_pmf (t ! (x - 1))) = n"
    proof (cases "x = 1")
      case True
      then show ?thesis
        using t assms(3) by (simp add: J_def)
    next
      case False
      then have "x - 1 \<in> set pre"
        using x by auto
      then show ?thesis
        using t by (simp add: J_def)
    qed
    have fresh: "t ! x = alloc_pmf A"
      using t x by (simp add: J_def)
    from marginal_column_total [OF assms(1) tl x(2,3) prev fresh assms(5)] obtain t' where
      r: "foldE (marginal_step P x) [0..<n] t = Some t'"
      and l: "length t' = columns" and o: "\<forall>c. c \<noteq> x \<longrightarrow> t' ! c = t ! c"
      and lx: "length (pmf_pmf (t' ! x)) = n"
      and px: "\<forall>k<n. probability (t' ! x) k =
         dsum (map (\<lambda>s. dmul (probability (t ! (x - 1)) s)
                           (probability (cp_pmfs P ! cond_pmf_index P x s) k)) [0..<n])"
      by blast
    have "J (pre @ [x]) t'"
      unfolding J_def
    proof (intro conjI ballI allI impI)
      show "length t' = columns"
        by (rule l)
      show "t' ! 0 = margs ! 0"
        using o x(2) t by (simp add: J_def)
      show "length (pmf_pmf (t' ! 0)) = n"
        using o x(2) t assms(3) by (simp add: J_def)
      show "length (pmf_pmf (t' ! c)) = n" if "c \<in> set (pre @ [x])" for c
        using that o lx t by (cases "c = x") (simp_all add: J_def)
      show "t' ! c = alloc_pmf A" if "1 \<le> c \<and> c < columns \<and> c \<notin> set (pre @ [x])" for c
        using that o t by (simp add: J_def)
      show "probability (t' ! c) k =
          dsum (map (\<lambda>s. dmul (probability (t' ! (c - 1)) s)
                            (probability (cp_pmfs P ! cond_pmf_index P c s) k)) [0..<n])"
        if c: "c \<in> set (pre @ [x])" and k: "k < n" for c k
      proof (cases "c = x")
        case True
        have "t' ! (x - 1) = t ! (x - 1)"
          using o x(2) by simp
        then show ?thesis
          using px k True by simp
      next
        case False
        then have cp: "c \<in> set pre"
          using c by simp
        then have "c < x" "1 \<le> c"
          using x(1) by simp_all
        then have "t' ! c = t ! c" "t' ! (c - 1) = t ! (c - 1)"
          using o by simp_all
        then show ?thesis
          using t cp k by (simp add: J_def)
      qed
    qed
    with r show "\<exists>t'. foldE (marginal_step P x) [0..<n] t = Some t' \<and> J (pre @ [x]) t'"
      by blast
  qed
  then show ?thesis
    unfolding J_def by auto
qed

text \<open>
  Claim C4. For training lines of at least \<open>columns\<close> symbols of the alphabet,
  \<open>calculate_statistics\<close> on a freshly allocated list returns a list in which the PMF of
  column 0 counts the first symbols of the lines and, for every column \<open>c \<ge> 1\<close>, the PMF
  of the context \<open>s\<close> counts at \<open>k\<close> the lines with \<open>L[c-1] = s\<close> and \<open>L[c] = k\<close>; there is
  one marginal for every column, the marginal of column 0 gives the probabilities of the
  PMF of column 0, and the marginal of every column \<open>c \<ge> 1\<close> is the sum over \<open>s\<close> of the
  marginal of column \<open>c - 1\<close> at \<open>s\<close> times the conditional PMF of \<open>c\<close> given \<open>s\<close>.
\<close>

theorem calculate_statistics_correct:
  assumes "1 \<le> qf_columns info" and "qf_columns info < 2 ^ 32"
    and "1 + length A * (qf_columns info - 1) < 2 ^ 32"
    and "\<forall>l\<in>set (concat (qf_blocks info)).
           qf_columns info \<le> length l \<and> (\<forall>c<qf_columns info. l ! c < length A)"
  shows "\<exists>res margs.
      calculate_statistics info (alloc_conditional_pmf_list A (qf_columns info)) = Some res \<and>
      cp_marginal_pmfs res = Some margs \<and>
      get_cond_pmf res 0 0 = Some (cp_pmfs res ! 0) \<and>
      (\<forall>k<length A. pmf_pmf (cp_pmfs res ! 0) ! k =
         Num (real (length (filter (\<lambda>l. l ! 0 = k) (concat (qf_blocks info)))))) \<and>
      (\<forall>c s k. 1 \<le> c \<and> c < qf_columns info \<and> s < length A \<and> k < length A \<longrightarrow>
         get_cond_pmf res c s = Some (cp_pmfs res ! cond_pmf_index res c s) \<and>
         pmf_pmf (cp_pmfs res ! cond_pmf_index res c s) ! k =
           Num (real (length (filter (\<lambda>l. l ! (c - 1) = s \<and> l ! c = k)
                                (concat (qf_blocks info)))))) \<and>
      length margs = qf_columns info \<and>
      (\<forall>k<length A. probability (margs ! 0) k = probability (cp_pmfs res ! 0) k) \<and>
      (\<forall>c k. 1 \<le> c \<and> c < qf_columns info \<and> k < length A \<longrightarrow>
         probability (margs ! c) k =
           dsum (map (\<lambda>s. dmul (probability (margs ! (c - 1)) s)
                             (probability (cp_pmfs res ! cond_pmf_index res c s) k))
                  [0..<length A]))"
proof -
  define n where "n = length A"
  define columns where "columns = qf_columns info"
  define ls where "ls = concat (qf_blocks info)"
  define P0 where "P0 = alloc_conditional_pmf_list A columns"
  have i0: "counts_inv n columns P0 (\<lambda>k. 0) (\<lambda>c s k. 0)"
    unfolding n_def P0_def using assms(1,2,3) unfolding columns_def [symmetric]
    by (rule alloc_counts_inv)
  have wf: "\<forall>l\<in>set (concat (qf_blocks info)). columns \<le> length l \<and> (\<forall>c<columns. l ! c < n)"
    using assms(4) by (simp add: columns_def n_def)
  have c1: "1 \<le> columns"
    using assms(1) by (simp add: columns_def)
  from count_blocks_total [OF i0 c1 wf] obtain P where
    cnt: "foldE (\<lambda>block pmf_list. foldE (count_line columns) block pmf_list) (qf_blocks info) P0 = Some P"
    and inv: "counts_inv n columns P (\<lambda>k. length (filter (\<lambda>l. l ! 0 = k) ls))
      (\<lambda>c s k. length (filter (\<lambda>l. l ! (c - 1) = s \<and> l ! c = k) ls))"
    unfolding ls_def by blast
  define A' where "A' = cp_alphabet P"
  have a': "length A' = n"
    using inv by (simp add: counts_inv_def A'_def)
  have p0: "0 < length (cp_pmfs P)" "length (pmf_pmf (cp_pmfs P ! 0)) = n"
    using inv by (simp_all add: counts_inv_def)
  define margs0 where "margs0 = alloc_pmf_list columns A'"
  define m0 where "m0 = (alloc_pmf A')\<lparr>pmf_pmf := map (\<lambda>i. dadd (dmul (Num 1) (probability (cp_pmfs P ! 0) i))
      (dmul (Num 0) (probability (alloc_pmf A') i))) [0..<n], pmf_ready := True\<rparr>"
  define margs1 where "margs1 = margs0[0 := m0]"
  have g0: "get_cond_pmf P 0 0 = Some (cp_pmfs P ! 0)"
    using p0 by (simp add: get_cond_pmf_def cond_pmf_index_def)
  have cb: "combine_pmfs (cp_pmfs P ! 0) (alloc_pmf A') (Num 1) (Num 0) (alloc_pmf A') = Some m0"
    using p0 a' by (simp add: combine_pmfs_def m0_def)
  have m1: "length margs1 = columns" "length (pmf_pmf (margs1 ! 0)) = n"
    "\<forall>c. 1 \<le> c \<and> c < columns \<longrightarrow> margs1 ! c = alloc_pmf A'"
    using c1 by (simp_all add: margs1_def margs0_def alloc_pmf_list_def m0_def)
  from marginal_columns_total [OF inv m1 a'] obtain margs where
    mg: "foldE (\<lambda>column margs. foldE (marginal_step P column) [0..<n] margs) [1..<columns] margs1 =
           Some margs"
    and ml: "length margs = columns" and mz: "margs ! 0 = margs1 ! 0"
    and mp: "\<forall>c k. 1 \<le> c \<and> c < columns \<and> k < n \<longrightarrow> probability (margs ! c) k =
              dsum (map (\<lambda>s. dmul (probability (margs ! (c - 1)) s)
                                (probability (cp_pmfs P ! cond_pmf_index P c s) k)) [0..<n])"
    by blast
  define res where "res = P\<lparr>cp_marginal_pmfs := Some margs\<rparr>"
  have m1e: "(replicate columns (alloc_pmf A'))[0 := m0] = margs1"
    by (simp add: margs1_def margs0_def alloc_pmf_list_def)
  have run: "calculate_statistics info P0 = Some res"
    using cnt g0 cb mg c1
    by (simp add: calculate_statistics_def columns_def [symmetric] A'_def [symmetric] a'
        nth_chk_def alloc_pmf_list_def m1e res_def Let_def)
  have ri: "cond_pmf_index res c s = cond_pmf_index P c s" for c s
    by (simp add: cond_pmf_index_def res_def)
  have rg: "get_cond_pmf res c s = get_cond_pmf P c s" for c s
    by (simp add: get_cond_pmf_def ri) (simp add: res_def)
  have rp: "cp_pmfs res = cp_pmfs P" "cp_marginal_pmfs res = Some margs"
    by (simp_all add: res_def)
  have k0: "\<forall>k<n. pmf_pmf (cp_pmfs res ! 0) ! k = Num (real (length (filter (\<lambda>l. l ! 0 = k) ls)))"
    using inv by (simp add: counts_inv_def rp)
  have kc: "get_cond_pmf res c s = Some (cp_pmfs res ! cond_pmf_index res c s) \<and>
      pmf_pmf (cp_pmfs res ! cond_pmf_index res c s) ! k =
        Num (real (length (filter (\<lambda>l. l ! (c - 1) = s \<and> l ! c = k) ls)))"
    if "1 \<le> c \<and> c < columns \<and> s < n \<and> k < n" for c s k
  proof -
    have "pmf_pmf (cp_pmfs P ! (1 + (c - 1) * n + s)) ! k =
        Num (real (length (filter (\<lambda>l. l ! (c - 1) = s \<and> l ! c = k) ls)))"
      using inv that unfolding counts_inv_def by blast
    then show ?thesis
      using get_cond_pmf_counts [OF inv, of c s] that by (simp add: rp ri rg)
  qed
  have g0r: "get_cond_pmf res 0 0 = Some (cp_pmfs res ! 0)"
    using g0 by (simp add: rg rp)
  have me: "margs ! 0 = m0"
    using mz c1 by (simp add: margs1_def margs0_def alloc_pmf_list_def)
  have m0r: "\<forall>k<n. probability (margs ! 0) k = probability (cp_pmfs res ! 0) k"
  proof (intro allI impI)
    fix k
    assume k: "k < n"
    have "probability (margs ! 0) k = pmf_pmf m0 ! k"
      by (simp add: me probability_def m0_def)
    also have "\<dots> = dadd (probability (cp_pmfs P ! 0) k) (dmul (Num 0) (probability (alloc_pmf A') k))"
      using k by (simp add: m0_def)
    also have "\<dots> = probability (cp_pmfs P ! 0) k"
      using k a' by (simp add: dadd_zero_right)
    finally show "probability (margs ! 0) k = probability (cp_pmfs res ! 0) k"
      by (simp add: rp)
  qed
  have mpr: "\<forall>c k. 1 \<le> c \<and> c < columns \<and> k < n \<longrightarrow> probability (margs ! c) k =
      dsum (map (\<lambda>s. dmul (probability (margs ! (c - 1)) s)
                        (probability (cp_pmfs res ! cond_pmf_index res c s) k)) [0..<n])"
    using mp by (simp add: rp ri)
  have "calculate_statistics info (alloc_conditional_pmf_list A columns) = Some res \<and>
      cp_marginal_pmfs res = Some margs \<and>
      get_cond_pmf res 0 0 = Some (cp_pmfs res ! 0) \<and>
      (\<forall>k<n. pmf_pmf (cp_pmfs res ! 0) ! k = Num (real (length (filter (\<lambda>l. l ! 0 = k) ls)))) \<and>
      (\<forall>c s k. 1 \<le> c \<and> c < columns \<and> s < n \<and> k < n \<longrightarrow>
         get_cond_pmf res c s = Some (cp_pmfs res ! cond_pmf_index res c s) \<and>
         pmf_pmf (cp_pmfs res ! cond_pmf_index res c s) ! k =
           Num (real (length (filter (\<lambda>l. l ! (c - 1) = s \<and> l ! c = k) ls)))) \<and>
      length margs = columns \<and>
      (\<forall>k<n. probability (margs ! 0) k = probability (cp_pmfs res ! 0) k) \<and>
      (\<forall>c k. 1 \<le> c \<and> c < columns \<and> k < n \<longrightarrow>
         probability (margs ! c) k =
           dsum (map (\<lambda>s. dmul (probability (margs ! (c - 1)) s)
                             (probability (cp_pmfs res ! cond_pmf_index res c s) k)) [0..<n]))"
    using run rp(2) g0r k0 kc ml m0r mpr unfolding P0_def by blast
  then show ?thesis
    unfolding columns_def n_def ls_def by blast
qed

theorem calculate_statistics_correct_witness:
  "\<exists>res margs.
      calculate_statistics ex_info (alloc_conditional_pmf_list [0, 1] (qf_columns ex_info)) = Some res \<and>
      cp_marginal_pmfs res = Some margs \<and>
      get_cond_pmf res 0 0 = Some (cp_pmfs res ! 0) \<and>
      pmf_pmf (cp_pmfs res ! 0) ! 1 =
         Num (real (length (filter (\<lambda>l. l ! 0 = 1) (concat (qf_blocks ex_info))))) \<and>
      get_cond_pmf res 2 1 = Some (cp_pmfs res ! cond_pmf_index res 2 1) \<and>
      pmf_pmf (cp_pmfs res ! cond_pmf_index res 2 1) ! 0 =
         Num (real (length (filter (\<lambda>l. l ! (2 - 1) = 1 \<and> l ! 2 = 0) (concat (qf_blocks ex_info))))) \<and>
      length margs = qf_columns ex_info \<and>
      probability (margs ! 0) 1 = probability (cp_pmfs res ! 0) 1 \<and>
      probability (margs ! 2) 1 =
         dsum (map (\<lambda>s. dmul (probability (margs ! (2 - 1)) s)
                           (probability (cp_pmfs res ! cond_pmf_index res 2 s) 1))
                [0..<length [0, 1 :: nat]])"
proof -
  have a: "1 \<le> qf_columns ex_info" "qf_columns ex_info < 2 ^ 32"
    "1 + length [0, 1 :: nat] * (qf_columns ex_info - 1) < 2 ^ 32"
    by (simp_all add: ex_info_def)
  have b: "\<forall>l\<in>set (concat (qf_blocks ex_info)).
      qf_columns ex_info \<le> length l \<and> (\<forall>c<qf_columns ex_info. l ! c < length [0, 1 :: nat])"
    by (auto simp: ex_info_def less_Suc_eq numeral_3_eq_3)
  have k: "(1::nat) < length [0, 1 :: nat]"
    by simp
  have c: "1 \<le> (2::nat) \<and> 2 < qf_columns ex_info \<and> (1::nat) < length [0, 1 :: nat] \<and>
      (0::nat) < length [0, 1 :: nat]"
    "1 \<le> (2::nat) \<and> 2 < qf_columns ex_info \<and> (1::nat) < length [0, 1 :: nat]"
    by (simp_all add: ex_info_def)
  from calculate_statistics_correct [OF a b] k c show ?thesis
    by blast
qed

section \<open>Properties of the codebook generator\<close>

lemma store_cond_quantizers_frame:
  assumes "store_cond_quantizers lo hi Q c s = Some Q'"
  shows "cq_input_alphabets Q' = cq_input_alphabets Q"
    and "length (cq_q Q') = length (cq_q Q)"
    and "length (cq_ratio Q') = length (cq_ratio Q)"
    and "c' \<noteq> c \<Longrightarrow> cq_q Q' ! c' = cq_q Q ! c'"
    and "c' \<noteq> c \<Longrightarrow> cq_ratio Q' ! c' = cq_ratio Q ! c'"
    and "\<exists>A idx qs. cq_input_alphabets Q ! c = Some A \<and> get_symbol_index A s = Some idx \<and>
           cq_q Q ! c = Some qs \<and> 2 * idx + 1 < length qs \<and> c < length (cq_q Q) \<and>
           cq_q Q' ! c = Some (qs[2 * idx := Some lo, 2 * idx + 1 := Some hi])"
  using assms
  by (auto simp: store_cond_quantizers_def split: Option.bind_splits)

lemma cond_quantizer_init_column_frame:
  assumes "cond_quantizer_init_column Q c U = Some Q'"
  shows "length (cq_input_alphabets Q') = length (cq_input_alphabets Q)"
    and "length (cq_q Q') = length (cq_q Q)"
    and "length (cq_ratio Q') = length (cq_ratio Q)"
    and "c' \<noteq> c \<Longrightarrow> cq_input_alphabets Q' ! c' = cq_input_alphabets Q ! c'"
    and "c' \<noteq> c \<Longrightarrow> cq_q Q' ! c' = cq_q Q ! c'"
    and "c' \<noteq> c \<Longrightarrow> cq_ratio Q' ! c' = cq_ratio Q ! c'"
    and "c < length (cq_q Q)"
    and "cq_input_alphabets Q' ! c = Some U"
    and "cq_q Q' ! c = Some (replicate (2 * length U) None)"
  using assms
  by (auto simp: cond_quantizer_init_column_def duplicate_alphabet_def mult.commute
      split: Option.bind_splits)

lemma set_alphabet_union [simp]: "set (alphabet_union A B) = set A \<union> set B"
  by (simp add: alphabet_union_def)

lemma distinct_alphabet_union [simp]: "distinct (alphabet_union A B)"
  by (simp add: alphabet_union_def)

lemma get_symbol_index_nth:
  "distinct A \<Longrightarrow> j < length A \<Longrightarrow> get_symbol_index A (A ! j) = Some j"
proof (induction A arbitrary: j)
  case Nil
  then show ?case by simp
next
  case (Cons a A)
  show ?case
  proof (cases j)
    case 0
    then show ?thesis by simp
  next
    case (Suc i)
    then show ?thesis
      using Cons.prems Cons.IH [of i] by auto
  qed
qed

lemma next_output_union_set:
  assumes "next_output_union Q c P = Some U"
    and "cq_q Q ! (c - 1) = Some (map Some fs)" and "length fs = 2 * length P"
  shows "set U = (\<Union>q\<in>set fs. set (qz_output_alphabet q)) \<and> distinct U"
proof -
  from assms(1,2) have c: "c - 1 < length (cq_q Q)" and f0: "0 < length fs"
    by (auto simp: next_output_union_def get_cond_quantizer_indexed_def split: Option.bind_splits)
  have p: "1 < 2 * length P"
    using f0 assms(3) by (cases P) simp_all
  from assms(1,2) c f0 have
    f: "foldE (union_step Q c) [1..<2 * length P] (qz_output_alphabet (fs ! 0)) = Some U"
    by (auto simp: next_output_union_def get_cond_quantizer_indexed_def duplicate_alphabet_def
        split: Option.bind_splits)
  define I where "I = (\<lambda>(pre :: nat list) V. set V = (\<Union>j<1 + length pre. set (qz_output_alphabet (fs ! j))) \<and>
      (pre \<noteq> [] \<longrightarrow> distinct V))"
  have "I [1..<2 * length P] U"
  proof (rule foldE_partial [OF f])
    have "{..<1 + length ([] :: nat list)} = {0}"
      by auto
    then show "I [] (qz_output_alphabet (fs ! 0))"
      by (simp add: I_def)
  next
    fix pre j post V V'
    assume xs: "[1..<2 * length P] = pre @ j # post" and v: "I pre V"
      and s: "union_step Q c j V = Some V'"
    from upt_split [OF xs] have j: "pre = [1..<j]" "1 \<le> j" "j < 2 * length P"
      by simp_all
    then have lp: "1 + length pre = j"
      by simp
    have "V' = alphabet_union V (qz_output_alphabet (fs ! j))"
      using s assms(2,3) c j
      by (auto simp: union_step_def get_cond_quantizer_indexed_def split: Option.bind_splits)
    moreover have "{..<1 + length (pre @ [j])} = insert j {..<1 + length pre}"
      using lp by auto
    ultimately show "I (pre @ [j]) V'"
      using v unfolding I_def by auto
  qed
  moreover have "[1..<2 * length P] \<noteq> []"
    using p by auto
  moreover have "(\<Union>j<1 + length [1..<2 * length P]. set (qz_output_alphabet (fs ! j))) =
      (\<Union>q\<in>set fs. set (qz_output_alphabet q))"
  proof -
    have "1 + length [1..<2 * length P] = length fs"
      using p assms(3) by simp
    moreover have "(\<Union>j<length fs. set (qz_output_alphabet (fs ! j))) =
        (\<Union>q\<in>set fs. set (qz_output_alphabet q))"
    proof -
      have e: "set fs = (\<lambda>j. fs ! j) ` {..<length fs}"
        by (auto simp: in_set_conv_nth)
      show ?thesis
        by (subst e) (simp only: UN_simps image_image SUP_image o_def)
    qed
    ultimately show ?thesis
      by (simp only:)
  qed
  ultimately show ?thesis
    unfolding I_def by simp
qed

lemma all_Some_map:
  assumes "\<forall>i<length qs. qs ! i \<noteq> None"
  shows "qs = map Some (map the qs)"
  using assms by (intro nth_equalityI) auto

lemma design_context_frame:
  assumes "design_context gq ent d cmp c xpmf U j t = Some t'"
  shows "\<exists>lo hi. nth_chk U j = Some (U ! j) \<and>
           store_cond_quantizers lo hi (gs_q_list t) c (U ! j) = Some (gs_q_list t')"
  using assms
  by (fastforce simp: design_context_def Let_def split: Option.bind_splits prod.splits)

lemma design_loop:
  fixes st :: "'w gen_state"
  assumes "foldE (design_context gq ent d cmp c xpmf U) [0..<length U] st = Some st'"
    and "cq_input_alphabets (gs_q_list st) ! c = Some U" and "distinct U"
    and "cq_q (gs_q_list st) ! c = Some (replicate (2 * length U) None)"
  shows "cq_input_alphabets (gs_q_list st') = cq_input_alphabets (gs_q_list st) \<and>
         length (cq_q (gs_q_list st')) = length (cq_q (gs_q_list st)) \<and>
         length (cq_ratio (gs_q_list st')) = length (cq_ratio (gs_q_list st)) \<and>
         (\<forall>c'. c' \<noteq> c \<longrightarrow> cq_q (gs_q_list st') ! c' = cq_q (gs_q_list st) ! c') \<and>
         (\<forall>c'. c' \<noteq> c \<longrightarrow> cq_ratio (gs_q_list st') ! c' = cq_ratio (gs_q_list st) ! c') \<and>
         (\<exists>fs. cq_q (gs_q_list st') ! c = Some (map Some fs) \<and> length fs = 2 * length U)"
proof -
  define I where "I = (\<lambda>(pre :: nat list) (t :: 'w gen_state).
      cq_input_alphabets (gs_q_list t) = cq_input_alphabets (gs_q_list st) \<and>
      length (cq_q (gs_q_list t)) = length (cq_q (gs_q_list st)) \<and>
      length (cq_ratio (gs_q_list t)) = length (cq_ratio (gs_q_list st)) \<and>
      (\<forall>c'. c' \<noteq> c \<longrightarrow> cq_q (gs_q_list t) ! c' = cq_q (gs_q_list st) ! c') \<and>
      (\<forall>c'. c' \<noteq> c \<longrightarrow> cq_ratio (gs_q_list t) ! c' = cq_ratio (gs_q_list st) ! c') \<and>
      (\<exists>qs. cq_q (gs_q_list t) ! c = Some qs \<and> length qs = 2 * length U \<and>
         (\<forall>i<2 * length pre. qs ! i \<noteq> None)))"
  have "I [0..<length U] st'"
  proof (rule foldE_partial [OF assms(1)])
    show "I [] st"
      using assms(4) by (simp add: I_def)
  next
    fix pre j post t t'
    assume xs: "[0..<length U] = pre @ j # post" and t: "I pre t"
      and s: "design_context gq ent d cmp c xpmf U j t = Some t'"
    from upt_split [OF xs] have j: "pre = [0..<j]" "j < length U"
      by simp_all
    from design_context_frame [OF s] obtain lo hi where
      st: "store_cond_quantizers lo hi (gs_q_list t) c (U ! j) = Some (gs_q_list t')"
      by blast
    from t obtain qs where qs: "cq_q (gs_q_list t) ! c = Some qs" "length qs = 2 * length U"
      "\<forall>i<2 * length pre. qs ! i \<noteq> None"
      unfolding I_def by blast
    have a: "cq_input_alphabets (gs_q_list t) ! c = Some U"
      using t assms(2) by (simp add: I_def)
    from store_cond_quantizers_frame(6) [OF st] a qs(1)
      get_symbol_index_nth [OF assms(3) j(2)]
    have q': "cq_q (gs_q_list t') ! c = Some (qs[2 * j := Some lo, 2 * j + 1 := Some hi])"
      by auto
    have "\<forall>i<2 * length (pre @ [j]). (qs[2 * j := Some lo, 2 * j + 1 := Some hi]) ! i \<noteq> None"
    proof (intro allI impI)
      fix i
      assume "i < 2 * length (pre @ [j])"
      then have "i < 2 * j \<or> i = 2 * j \<or> i = 2 * j + 1"
        using j(1) by auto
      then show "(qs[2 * j := Some lo, 2 * j + 1 := Some hi]) ! i \<noteq> None"
        using qs j by (auto simp: nth_list_update)
    qed
    then show "I (pre @ [j]) t'"
      using t q' qs(2) store_cond_quantizers_frame(1,2,3,4,5) [OF st]
      unfolding I_def by auto
  qed
  then obtain qs where qs: "cq_q (gs_q_list st') ! c = Some qs" "length qs = 2 * length U"
    "\<forall>i<length qs. qs ! i \<noteq> None"
    unfolding I_def by auto
  have "cq_q (gs_q_list st') ! c = Some (map Some (map the qs)) \<and>
      length (map the qs) = 2 * length U"
    using qs all_Some_map [OF qs(3)] by simp
  then show ?thesis
    using \<open>I [0..<length U] st'\<close> unfolding I_def by blast
qed

lemma generate_column_inv:
  assumes "generate_column gq ent d cmp in_pmfs c st = Some st'"
    and "gen_inv columns c st" and "1 \<le> c" and "c < columns"
  shows "gen_inv columns (Suc c) st' \<and>
         (\<forall>c'<c. cq_q (gs_q_list st') ! c' = cq_q (gs_q_list st) ! c' \<and>
            cq_ratio (gs_q_list st') ! c' = cq_ratio (gs_q_list st) ! c')"
proof -
  define Q where "Q = gs_q_list st"
  define P where "P = gs_q_prev_output_union st"
  from assms(1) obtain U Q1 st2 qpmf xpmf where
    u: "next_output_union Q c P = Some U"
    and i: "cond_quantizer_init_column Q c U = Some Q1"
    and d: "foldE (design_context gq ent d cmp c xpmf U) [0..<length U] (st\<lparr>gs_q_list := Q1\<rparr>) =
              Some st2"
    and s': "st' = st2\<lparr>gs_q_prev_output_union := U, gs_prev_qpmf_list := qpmf\<rparr>"
    unfolding generate_column_def Q_def P_def
    by (auto simp: Let_def split: Option.bind_splits)
  define st1 where "st1 = st\<lparr>gs_q_list := Q1\<rparr>"
  have s1: "gs_q_list st1 = Q1"
    by (simp add: st1_def)
  note d = d [folded st1_def]
  from assms(2) obtain fs where
    len: "length (cq_input_alphabets Q) = columns" "length (cq_q Q) = columns"
      "length (cq_ratio Q) = columns"
    and a0: "cq_input_alphabets Q ! 0 = Some [0]"
    and ap: "cq_input_alphabets Q ! (c - 1) = Some P"
    and fs: "cq_q Q ! (c - 1) = Some (map Some fs)" "length fs = 2 * length P"
    and old: "\<forall>c'. 1 \<le> c' \<and> c' < c \<longrightarrow> union_at Q c'"
    unfolding gen_inv_def Q_def P_def by blast
  from next_output_union_set [OF u fs] have su: "set U = (\<Union>q\<in>set fs. set (qz_output_alphabet q))"
    and du: "distinct U"
    by simp_all
  note fi = cond_quantizer_init_column_frame [OF i]
  have d1: "cq_input_alphabets (gs_q_list st1) ! c = Some U"
    "cq_q (gs_q_list st1) ! c = Some (replicate (2 * length U) None)"
    using fi(8,9) by (simp_all add: s1)
  from design_loop [OF d d1(1) du d1(2)] obtain fs2 where
    ia: "cq_input_alphabets (gs_q_list st2) = cq_input_alphabets Q1"
    and l2: "length (cq_q (gs_q_list st2)) = length (cq_q Q1)"
      "length (cq_ratio (gs_q_list st2)) = length (cq_ratio Q1)"
    and o2: "\<forall>c'. c' \<noteq> c \<longrightarrow> cq_q (gs_q_list st2) ! c' = cq_q Q1 ! c'"
      "\<forall>c'. c' \<noteq> c \<longrightarrow> cq_ratio (gs_q_list st2) ! c' = cq_ratio Q1 ! c'"
    and f2: "cq_q (gs_q_list st2) ! c = Some (map Some fs2)" "length fs2 = 2 * length U"
    unfolding s1 by blast
  define Q2 where "Q2 = gs_q_list st2"
  have q2: "gs_q_list st' = Q2" "gs_q_prev_output_union st' = U"
    by (simp_all add: s' Q2_def)
  have keep_a: "cq_input_alphabets Q2 ! c' = cq_input_alphabets Q ! c'" if "c' \<noteq> c" for c'
    using that ia fi(4) by (simp add: Q2_def)
  have keep_q: "cq_q Q2 ! c' = cq_q Q ! c'" if "c' \<noteq> c" for c'
    using that o2(1) fi(5) by (simp add: Q2_def)
  have keep_r: "cq_ratio Q2 ! c' = cq_ratio Q ! c'" if "c' \<noteq> c" for c'
    using that o2(2) fi(6) by (simp add: Q2_def)
  have ac: "cq_input_alphabets Q2 ! c = Some U"
    using ia fi(8) by (simp add: Q2_def)
  have new: "union_at Q2 c"
    unfolding union_at_def
    using ac keep_a [of "c - 1"] keep_q [of "c - 1"] ap fs su assms(3) by auto
  have older: "union_at Q2 c'" if "1 \<le> c' \<and> c' < c" for c'
  proof -
    from old that have "union_at Q c'"
      by blast
    then show ?thesis
      unfolding union_at_def
      using keep_a [of c'] keep_a [of "c' - 1"] keep_q [of "c' - 1"] that by auto
  qed
  have "union_at Q2 c'" if "1 \<le> c' \<and> c' < Suc c" for c'
    using that new older [of c'] by (cases "c' = c") auto
  moreover have "cq_input_alphabets Q2 ! 0 = Some [0]"
    using keep_a [of 0] a0 assms(3) by simp
  moreover have "length (cq_input_alphabets Q2) = columns" "length (cq_q Q2) = columns"
    "length (cq_ratio Q2) = columns"
    using ia l2 fi(1,2,3) len by (simp_all add: Q2_def)
  ultimately have "gen_inv columns (Suc c) st'"
    unfolding gen_inv_def q2 using ac f2 by (auto simp: Q2_def)
  moreover have "\<forall>c'<c. cq_q (gs_q_list st') ! c' = cq_q (gs_q_list st) ! c' \<and>
      cq_ratio (gs_q_list st') ! c' = cq_ratio (gs_q_list st) ! c'"
    unfolding q2 using keep_q keep_r by (simp add: Q_def)
  ultimately show ?thesis
    by blast
qed

lemma generate_column0_result:
  assumes "generate_column0 gq ent w info in_pmfs d cmp = Some st"
  shows "\<exists>p0 hi lo r. get_cond_pmf in_pmfs 0 0 = Some p0 \<and>
           find_states (dmul (ent p0) cmp) = Some (hi, lo, r) \<and>
           cq_q (gs_q_list st) ! 0 = Some [Some (gq p0 d lo r), Some (gq p0 d hi (dsub (Num 1) r))] \<and>
           cq_ratio (gs_q_list st) ! 0 = Some [qz_ratio (gq p0 d lo r)] \<and>
           cq_input_alphabets (gs_q_list st) ! 0 = Some [0] \<and>
           gs_q_prev_output_union st = [0] \<and> 1 \<le> qf_columns info \<and>
           length (cq_input_alphabets (gs_q_list st)) = qf_columns info \<and>
           length (cq_q (gs_q_list st)) = qf_columns info \<and>
           length (cq_ratio (gs_q_list st)) = qf_columns info"
  using assms
  by (auto simp: generate_column0_def Let_def alloc_conditional_quantizer_list_def
      alloc_alphabet_def cond_quantizer_init_column_def duplicate_alphabet_def
      store_cond_quantizers_def numeral_2_eq_2
      split: Option.bind_splits prod.splits)

lemma generate_column0_inv:
  assumes "generate_column0 gq ent w info in_pmfs d cmp = Some st"
  shows "gen_inv (qf_columns info) 1 st"
proof -
  from generate_column0_result [OF assms] obtain a b where
    "cq_q (gs_q_list st) ! 0 = Some (map Some [a, b])"
    by auto
  moreover have "length [a, b] = 2 * length [0 :: nat]"
    by simp
  ultimately have "\<exists>fs. cq_q (gs_q_list st) ! 0 = Some (map Some fs) \<and>
      length fs = 2 * length [0 :: nat]"
    by blast
  then show ?thesis
    using generate_column0_result [OF assms] unfolding gen_inv_def by auto
qed

lemma generate_columns_inv:
  assumes "foldE (generate_column gq ent d cmp in_pmfs) [1..<columns] st0 = Some st"
    and "gen_inv columns 1 st0" and "1 \<le> columns"
  shows "gen_inv columns columns st \<and> cq_q (gs_q_list st) ! 0 = cq_q (gs_q_list st0) ! 0 \<and>
         cq_ratio (gs_q_list st) ! 0 = cq_ratio (gs_q_list st0) ! 0"
proof -
  define I where "I = (\<lambda>(pre :: nat list) (t :: 'a gen_state). gen_inv columns (1 + length pre) t \<and>
      cq_q (gs_q_list t) ! 0 = cq_q (gs_q_list st0) ! 0 \<and>
      cq_ratio (gs_q_list t) ! 0 = cq_ratio (gs_q_list st0) ! 0)"
  have "I [1..<columns] st"
  proof (rule foldE_partial [OF assms(1)])
    show "I [] st0"
      using assms(2) by (simp add: I_def)
  next
    fix pre x post t t'
    assume xs: "[1..<columns] = pre @ x # post" and t: "I pre t"
      and s: "generate_column gq ent d cmp in_pmfs x t = Some t'"
    from upt_split [OF xs] have x: "pre = [1..<x]" "1 \<le> x" "x < columns"
      by simp_all
    then have lp: "1 + length pre = x"
      by simp
    have "gen_inv columns x t"
      using t unfolding I_def lp by simp
    from generate_column_inv [OF s this x(2,3)]
    have "gen_inv columns (Suc x) t'"
      and "cq_q (gs_q_list t') ! 0 = cq_q (gs_q_list t) ! 0"
      and "cq_ratio (gs_q_list t') ! 0 = cq_ratio (gs_q_list t) ! 0"
      using x(2) by simp_all
    moreover have "1 + length (pre @ [x]) = Suc x"
      using lp by simp
    ultimately show "I (pre @ [x]) t'"
      using t unfolding I_def by simp
  qed
  moreover have "1 + length [1..<columns] = columns"
    using assms(3) by simp
  ultimately show ?thesis
    unfolding I_def by simp
qed

text \<open>
  Claim C2. In a store built by \<open>generate_codebooks\<close>, the input alphabet of column 0 is
  \<open>{0}\<close>, and for every column \<open>c \<ge> 1\<close> the input alphabet of \<open>c\<close> has the symbols of
  the union of the output alphabets of the \<open>2 |input_alphabet[c-1]|\<close> quantizers stored at
  column \<open>c - 1\<close>, none of which is missing.
\<close>

theorem generate_codebooks_alphabets:
  assumes "generate_codebooks gq ent w info in_pmfs d cmp = Some q_list"
  shows "1 \<le> qf_columns info \<and> length (cq_input_alphabets q_list) = qf_columns info \<and>
         cq_input_alphabets q_list ! 0 = Some [0] \<and>
         (\<forall>c. 1 \<le> c \<and> c < qf_columns info \<longrightarrow>
            (\<exists>A P fs. cq_input_alphabets q_list ! c = Some A \<and>
               cq_input_alphabets q_list ! (c - 1) = Some P \<and>
               cq_q q_list ! (c - 1) = Some (map Some fs) \<and> length fs = 2 * length P \<and>
               set A = (\<Union>q\<in>set fs. set (qz_output_alphabet q))))"
proof -
  from assms obtain stats st0 st where
    c0: "generate_column0 gq ent w info stats d cmp = Some st0"
    and l: "foldE (generate_column gq ent d cmp stats) [1..<qf_columns info] st0 = Some st"
    and q: "q_list = gs_q_list st"
    by (auto simp: generate_codebooks_def split: Option.bind_splits)
  from generate_column0_result [OF c0] have c1: "1 \<le> qf_columns info"
    by auto
  note i0 = generate_column0_inv [OF c0]
  from generate_columns_inv [OF l i0 c1] have "gen_inv (qf_columns info) (qf_columns info) st"
    by simp
  then show ?thesis
    using c1 unfolding gen_inv_def union_at_def q by simp
qed

text \<open>
  Claim C7, amended. With \<open>comp = 1/2\<close> and a column-0 entropy of 3/2 bits, the target
  is 3/4 and the allocator yields \<open>low = 1\<close>, \<open>high = 2\<close> and the ratio 1/4; the store
  built by \<open>generate_codebooks\<close> holds both quantizers of column 0, the one designed with 1
  state in slot 0 and the one designed with 2 states in slot 1.
\<close>

theorem generate_codebooks_column0:
  assumes "generate_codebooks gq ent w info in_pmfs d cmp = Some q_list"
    and "calculate_statistics info in_pmfs = Some stats"
    and "get_cond_pmf stats 0 0 = Some p0"
    and "ent p0 = Num (3/2)" and "cmp = Num (1/2)"
  shows "find_states (dmul (ent p0) cmp) = Some (2, 1, Num (1/4)) \<and>
         get_cond_quantizer_indexed q_list 0 0 = Some (Some (gq p0 d 1 (Num (1/4)))) \<and>
         get_cond_quantizer_indexed q_list 0 1 = Some (Some (gq p0 d 2 (Num (3/4))))"
proof -
  have f: "find_states (dmul (ent p0) cmp) = Some (2, 1, Num (1/4))"
    using find_states_three_quarters by (simp add: assms(4,5))
  from assms(1,2) obtain st0 st where
    c0: "generate_column0 gq ent w info stats d cmp = Some st0"
    and l: "foldE (generate_column gq ent d cmp stats) [1..<qf_columns info] st0 = Some st"
    and q: "q_list = gs_q_list st"
    by (auto simp: generate_codebooks_def split: Option.bind_splits)
  from generate_column0_result [OF c0] assms(3) f have c1: "1 \<le> qf_columns info"
    and q0: "cq_q (gs_q_list st0) ! 0 =
      Some [Some (gq p0 d 1 (Num (1/4))), Some (gq p0 d 2 (dsub (Num 1) (Num (1/4))))]"
    by auto
  note i0 = generate_column0_inv [OF c0]
  from generate_columns_inv [OF l i0 c1] have "cq_q q_list ! 0 = cq_q (gs_q_list st0) ! 0"
    and "length (cq_q q_list) = qf_columns info"
    unfolding gen_inv_def q by simp_all
  then show ?thesis
    using f q0 c1 by (simp add: get_cond_quantizer_indexed_def dsub_def)
qed

section \<open>The run of the generator on the example\<close>

text \<open>Every step of the run is evaluated on its own, then the steps are put together.\<close>

lemma upts:
  "[0..<2] = [0, 1]" "[1..<2] = [1]" "[1..<3] = [1, 2]" "[1..<4] = [1, 2, 3]"
  "[0..<Suc 0] = [0]" "[0..<Suc (Suc 0)] = [0, 1]" "[Suc 0..<2] = [1]" "[Suc 0..<3] = [1, 2]"
  "[Suc 0..<4] = [1, 2, 3]" "[0..<3] = [0, 1, 2]"
  by (simp_all add: upt_rec)

lemma ex_alloc: "alloc_conditional_pmf_list [0, 1] 3 =
    \<lparr>cp_columns = 3, cp_alphabet = [0, 1], cp_pmfs = replicate 5 (alloc_pmf [0, 1]),
     cp_marginal_pmfs = None\<rparr>"
  by (simp add: alloc_conditional_pmf_list_def)

lemma ex_stats: "calculate_statistics ex_info (alloc_conditional_pmf_list [0, 1] 3) = Some ex_in_pmfs"
  unfolding ex_alloc
  by (simp add: calculate_statistics_def ex_info_def alloc_pmf_def alloc_pmf_list_def
      count_line_def count_column_def cond_pmf_increment_def get_cond_pmf_def cond_pmf_index_def
      pmf_increment_def marginal_step_def combine_pmfs_def get_probability_def probability_def
      dsum_def upt_rec nth_chk_def Let_def replicate_numerals ex_in_pmfs_def ex_counts_def ex_half_def)

lemma find_states_ex [simp]: "find_states (dmul (ex_ent p) (Num (1/2))) = Some (2, 1, Num (1/4))"
  using find_states_three_quarters by (simp add: ex_ent_def)

lemma ex_gq_lo_hi [simp]:
  "ex_gq p () (Suc 0) (Num (1/4)) = ex_lo" "ex_gq p () 2 (Num (3/4)) = ex_hi"
  "ex_gq p () 1 (Num (1/4)) = ex_lo"
  by (simp_all add: ex_gq_def ex_lo_def ex_hi_def)

lemma ex_fields [simp]:
  "cp_alphabet ex_in_pmfs = [0, 1]" "qz_ratio ex_lo = Num (1/4)" "qz_output_alphabet ex_lo = [0]"
  "qz_output_alphabet ex_hi = [0, 1]" "qf_columns ex_info = 3"
  "gs_q_list (ex_st0 Q) = Q" "gs_q_prev_output_union (ex_st0 Q) = [0]"
  "gs_q_lo (ex_st0 Q) = ex_lo" "gs_q_hi (ex_st0 Q) = ex_hi" "gs_ratio (ex_st0 Q) = Num (1/4)"
  "gs_q_list (ex_st Q qpmf) = Q" "gs_q_prev_output_union (ex_st Q qpmf) = [0, 1]"
  "gs_prev_qpmf_list (ex_st Q qpmf) = qpmf"
  "gs_q_lo (ex_st Q qpmf) = ex_lo" "gs_q_hi (ex_st Q qpmf) = ex_hi" "gs_ratio (ex_st Q qpmf) = Num (1/4)"
  by (simp_all add: ex_in_pmfs_def ex_lo_def ex_hi_def ex_info_def ex_st0_def ex_st_def)

lemma ex_column0:
  "generate_column0 ex_gq ex_ent () ex_info ex_in_pmfs () (Num (1/2)) = Some (ex_st0 ex_q0)"
proof -
  have "get_cond_pmf ex_in_pmfs 0 0 = Some (ex_counts 2)"
    by (simp add: get_cond_pmf_def cond_pmf_index_def ex_in_pmfs_def nth_chk_def)
  then show ?thesis
    by (simp add: generate_column0_def alloc_conditional_quantizer_list_def
      alloc_alphabet_def cond_quantizer_init_column_def duplicate_alphabet_def
      store_cond_quantizers_def dsub_def replicate_numerals upts ex_st0_def ex_q0_def upd_chk_def
      nth_chk_def numeral_2_eq_2 [symmetric] Let_def)
qed

lemma ex_union1: "next_output_union ex_q0 1 [0] = Some [0, 1]"
  by (simp add: next_output_union_def union_step_def get_cond_quantizer_indexed_def
      alphabet_union_def nth_chk_def duplicate_alphabet_def ex_q0_def upts)

lemma ex_init1: "cond_quantizer_init_column ex_q0 1 [0, 1] = Some ex_q1i"
  by (simp add: cond_quantizer_init_column_def duplicate_alphabet_def ex_q0_def ex_q1i_def
      upd_chk_def replicate_numerals)

lemma ex_qpmf1:
  "compute_qpmf_quan_list ex_lo ex_hi (alloc_pmf_list 2 [0, 1]) (Num (1/4)) [0, 1] = Some ex_prev_qpmf"
  by (simp add: compute_qpmf_quan_list_def ex_lo_def ex_hi_def ex_prev_qpmf_def alloc_pmf_def
      alloc_pmf_list_def pmf_list_add_def upts nth_chk_def dsub_def replicate_numerals)

lemma ex_xpmf1:
  "compute_xpmf_list ex_prev_qpmf ex_in_pmfs 1 (alloc_pmf_list 2 [0, 1]) [0, 1] =
     Some [ex_half, ex_half]"
  by (simp add: compute_xpmf_list_def ex_prev_qpmf_def ex_in_pmfs_def ex_counts_def ex_half_def
      alloc_pmf_def alloc_pmf_list_def pmf_list_add_def upts nth_chk_def idx_sub_def
      replicate_numerals get_probability_def probability_def dsum_def marginal_pmf_def
      get_cond_pmf_def cond_pmf_index_def renormalize_row_def renormalize_pmf_def)

lemma ex_design1:
  "foldE (design_context ex_gq ex_ent () (Num (1/2)) 1 [ex_half, ex_half] [0, 1]) [0..<2]
     (ex_st0 ex_q1i) = Some (ex_st0 ex_q1)"
  by (simp add: design_context_def upts nth_chk_def store_cond_quantizers_def dsub_def
      ex_q1i_def ex_q1_def ex_st0_def upd_chk_def)

lemma ex_column1:
  "generate_column ex_gq ex_ent () (Num (1/2)) ex_in_pmfs 1 (ex_st0 ex_q0) =
     Some (ex_st ex_q1 ex_prev_qpmf)"
proof -
  have "(ex_st0 ex_q0)\<lparr>gs_q_list := ex_q1i\<rparr> = ex_st0 ex_q1i"
    "(ex_st0 ex_q1)\<lparr>gs_q_prev_output_union := [0, 1], gs_prev_qpmf_list := ex_prev_qpmf\<rparr> =
       ex_st ex_q1 ex_prev_qpmf"
    by (simp_all add: ex_st0_def ex_st_def)
  note steps = this ex_union1 ex_init1 ex_qpmf1 ex_xpmf1 ex_design1
  show ?thesis
    by (simp add: generate_column_def numeral_2_eq_2 [symmetric]
        steps [simplified, simplified numeral_2_eq_2 [symmetric]])
qed

lemma ex_union2: "next_output_union ex_q1 2 [0, 1] = Some [0, 1]"
  by (simp add: next_output_union_def union_step_def get_cond_quantizer_indexed_def
      alphabet_union_def nth_chk_def duplicate_alphabet_def ex_q1_def upts)

lemma ex_init2: "cond_quantizer_init_column ex_q1 2 [0, 1] = Some ex_q2i"
  by (simp add: cond_quantizer_init_column_def duplicate_alphabet_def ex_q1_def ex_q2i_def
      upd_chk_def replicate_numerals)

lemma ex_xpmf2:
  "compute_xpmf_list ex_qpmf2 ex_in_pmfs 2 (alloc_pmf_list 2 [0, 1]) [0, 1] =
     Some [ex_half, ex_half]"
  by (simp add: compute_xpmf_list_def ex_qpmf2_def ex_in_pmfs_def ex_counts_def ex_half_def
      alloc_pmf_def alloc_pmf_list_def pmf_list_add_def upts nth_chk_def idx_sub_def
      replicate_numerals get_probability_def probability_def dsum_def marginal_pmf_def
      get_cond_pmf_def cond_pmf_index_def renormalize_row_def renormalize_pmf_def)

lemma ex_design2:
  "foldE (design_context ex_gq ex_ent () (Num (1/2)) 2 [ex_half, ex_half] [0, 1]) [0..<2]
     (ex_st ex_q2i ex_prev_qpmf) = Some (ex_st ex_q2 ex_prev_qpmf)"
  by (simp add: design_context_def upts nth_chk_def store_cond_quantizers_def dsub_def
      ex_q2i_def ex_q2_def ex_st_def upd_chk_def)

lemma ex_column2:
  "generate_column ex_gq ex_ent () (Num (1/2)) ex_in_pmfs 2 (ex_st ex_q1 ex_prev_qpmf) =
     Some (ex_st ex_q2 ex_qpmf2)"
proof -
  have "(ex_st ex_q1 ex_prev_qpmf)\<lparr>gs_q_list := ex_q2i\<rparr> = ex_st ex_q2i ex_prev_qpmf"
    "(ex_st ex_q2 ex_prev_qpmf)\<lparr>gs_q_prev_output_union := [0, 1], gs_prev_qpmf_list := ex_qpmf2\<rparr> =
       ex_st ex_q2 ex_qpmf2"
    by (simp_all add: ex_st_def)
  note upd = this
  note steps = ex_union2 ex_init2 ex_qpmf2_run ex_xpmf2 ex_design2
  show ?thesis
    by (simp add: generate_column_def numeral_2_eq_2 [symmetric] upd
        steps [simplified, simplified numeral_2_eq_2 [symmetric]])
qed

lemma ex_generate:
  "generate_codebooks ex_gq ex_ent () ex_info (alloc_conditional_pmf_list [0, 1] 3) ()
     (Num (1/2)) = Some ex_q2"
  by (simp add: generate_codebooks_def upts ex_stats [simplified] ex_column0 ex_column1 [simplified]
      ex_column2)

theorem generate_codebooks_alphabets_witness:
  "length (cq_input_alphabets ex_q2) = qf_columns ex_info \<and>
   cq_input_alphabets ex_q2 ! 0 = Some [0] \<and>
   (\<exists>A P fs. cq_input_alphabets ex_q2 ! 1 = Some A \<and>
      cq_input_alphabets ex_q2 ! (1 - 1) = Some P \<and>
      cq_q ex_q2 ! (1 - 1) = Some (map Some fs) \<and> length fs = 2 * length P \<and>
      set A = (\<Union>q\<in>set fs. set (qz_output_alphabet q))) \<and>
   (\<exists>A P fs. cq_input_alphabets ex_q2 ! 2 = Some A \<and>
      cq_input_alphabets ex_q2 ! (2 - 1) = Some P \<and>
      cq_q ex_q2 ! (2 - 1) = Some (map Some fs) \<and> length fs = 2 * length P \<and>
      set A = (\<Union>q\<in>set fs. set (qz_output_alphabet q)))"
proof -
  note t = generate_codebooks_alphabets [OF ex_generate]
  have c: "1 \<le> (1::nat) \<and> 1 < qf_columns ex_info" "1 \<le> (2::nat) \<and> 2 < qf_columns ex_info"
    by (simp_all add: ex_info_def)
  from t have a: "\<forall>c. 1 \<le> c \<and> c < qf_columns ex_info \<longrightarrow>
      (\<exists>A P fs. cq_input_alphabets ex_q2 ! c = Some A \<and>
         cq_input_alphabets ex_q2 ! (c - 1) = Some P \<and>
         cq_q ex_q2 ! (c - 1) = Some (map Some fs) \<and> length fs = 2 * length P \<and>
         set A = (\<Union>q\<in>set fs. set (qz_output_alphabet q)))"
    by (elim conjE)
  from t a [rule_format, OF c(1)] a [rule_format, OF c(2)] show ?thesis
    by (intro conjI) (elim conjE, assumption)+
qed

theorem generate_codebooks_column0_witness:
  "find_states (dmul (ex_ent (ex_counts 2)) (Num (1/2))) = Some (2, 1, Num (1/4)) \<and>
   get_cond_quantizer_indexed ex_q2 0 0 = Some (Some (ex_gq (ex_counts 2) () 1 (Num (1/4)))) \<and>
   get_cond_quantizer_indexed ex_q2 0 1 = Some (Some (ex_gq (ex_counts 2) () 2 (Num (3/4))))"
proof (rule generate_codebooks_column0 [OF ex_generate ex_stats])
  show "get_cond_pmf ex_in_pmfs 0 0 = Some (ex_counts 2)"
    by (simp add: get_cond_pmf_def cond_pmf_index_def ex_in_pmfs_def nth_chk_def)
  show "ex_ent (ex_counts 2) = Num (3/2)"
    by (simp add: ex_ent_def)
  show "Num (1/2) = Num (1/2)"
    by simp
qed

text \<open>
  Claim C7 as stated fails: for the target 3/4 the allocator does not return
  \<open>low = 2\<close>, \<open>high = 3\<close> with the ratio \<open>(3/4 - log\<^sub>2 3) / (1 - log\<^sub>2 3)\<close>.
\<close>

theorem find_states_three_quarters_not_2_3:
  "find_states (dmul (Num (3/2)) (Num (1/2))) \<noteq>
     Some (3, 2, Num ((3/4 - log 2 3) / (1 - log 2 3)))"
  using find_states_three_quarters by simp

end
